theory Spec2Isabelle
  imports Main "HOL-Library.Char_ord"
begin

section \<open>Version comparison (appcast.cpp, CompareVersions)\<close>

subsection \<open>Character classes and splitting\<close>

datatype CharType = Type_Number | Type_Period | Type_String

text \<open>
  \<^verbatim>\<open>ClassifyChar(char c)\<close>. The order on \<^typ>\<open>char\<close> is the one of the character
  codes; a character outside \<^verbatim>\<open>'0'..'9'\<close> is a string character whether \<^verbatim>\<open>char\<close> is
  signed or not.
\<close>

definition ClassifyChar :: "char \<Rightarrow> CharType" where
  "ClassifyChar c =
     (if c = CHR ''.'' then Type_Period
      else if CHR ''0'' \<le> c \<and> c \<le> CHR ''9'' then Type_Number
      else Type_String)"

text \<open>
  The loop of \<^verbatim>\<open>SplitVersionString\<close> from index 1 on: the characters still to read, the
  current segment \<^verbatim>\<open>s\<close>, \<^verbatim>\<open>prevType\<close> and the \<^verbatim>\<open>list\<close> built so far. When the
  characters are used up the last segment is pushed.
\<close>

fun split_loop :: "string \<Rightarrow> string \<Rightarrow> CharType \<Rightarrow> string list \<Rightarrow> string list" where
  "split_loop [] s prevType list = list @ [s]"
| "split_loop (c # cs) s prevType list =
     (let newType = ClassifyChar c in
      if prevType \<noteq> newType \<or> prevType = Type_Period
      then split_loop cs [c] newType (list @ [s])
      else split_loop cs (s @ [c]) newType list)"

definition SplitVersionString :: "string \<Rightarrow> string list" where
  "SplitVersionString version =
     (case version of
        [] \<Rightarrow> []
      | c0 # rest \<Rightarrow> split_loop rest [c0] (ClassifyChar c0) [])"

subsection \<open>The library functions the comparison calls\<close>

text \<open>
  \<^verbatim>\<open>a[0]\<close> on a \<^verbatim>\<open>const std::string\<close>: the first character, and the terminating
  null character when the string is empty.
\<close>

definition first_char :: "string \<Rightarrow> char" where
  "first_char s = (case s of [] \<Rightarrow> CHR 0x00 | c # _ \<Rightarrow> c)"

text \<open>
  \<^verbatim>\<open>std::string::compare\<close>: lexicographic on the character codes, a proper prefix
  being smaller. The C++ standard fixes the sign of the result only; the model
  returns \<open>-1\<close>, \<open>0\<close> or \<open>1\<close>.
\<close>

fun string_compare :: "string \<Rightarrow> string \<Rightarrow> int" where
  "string_compare [] [] = 0"
| "string_compare [] (y # ys) = -1"
| "string_compare (x # xs) [] = 1"
| "string_compare (x # xs) (y # ys) =
     (if x < y then -1 else if y < x then 1 else string_compare xs ys)"

definition INT_MAX :: int where
  "INT_MAX = 2147483647"

definition INT_MIN :: int where
  "INT_MIN = - 2147483648"

definition isdigit :: "char \<Rightarrow> bool" where
  "isdigit c \<longleftrightarrow> CHR ''0'' \<le> c \<and> c \<le> CHR ''9''"

definition isspace :: "char \<Rightarrow> bool" where
  "isspace c \<longleftrightarrow> c = CHR '' '' \<or> (CHR 0x09 \<le> c \<and> c \<le> CHR 0x0D)"

definition digit_value :: "char \<Rightarrow> nat" where
  "digit_value c = of_char c - of_char (CHR ''0'')"

text \<open>The value of the leading run of decimal digits, read left to right.\<close>

fun digits_value :: "string \<Rightarrow> nat \<Rightarrow> nat" where
  "digits_value [] acc = acc"
| "digits_value (c # cs) acc =
     (if isdigit c then digits_value cs (10 * acc + digit_value c) else acc)"

text \<open>
  \<^verbatim>\<open>atoi\<close>: white space is skipped, then an optional sign and the leading digits are
  read; what follows is ignored. The result is a 32-bit \<^verbatim>\<open>int\<close>. The C standard
  leaves a value out of range undefined; the model follows the documentation of the
  Microsoft C runtime, the one this Windows library is built against, where
  \<^verbatim>\<open>atoi\<close> then returns \<^verbatim>\<open>INT_MAX\<close> or \<^verbatim>\<open>INT_MIN\<close>.
\<close>

definition atoi :: "string \<Rightarrow> int" where
  "atoi s =
     (let t = dropWhile isspace s in
      case t of
        [] \<Rightarrow> 0
      | c # r \<Rightarrow>
          if c = CHR ''-'' then max INT_MIN (- int (digits_value r 0))
          else if c = CHR ''+'' then min INT_MAX (int (digits_value r 0))
          else min INT_MAX (int (digits_value t 0)))"

subsection \<open>CompareVersions\<close>

text \<open>
  The body of the loop over the common length, for the parts \<^verbatim>\<open>a\<close> and \<^verbatim>\<open>b\<close> at
  one index: \<open>Some r\<close> when the body returns \<open>r\<close>, \<open>None\<close> when the loop goes on to
  the next index.
\<close>

definition compare_part :: "string \<Rightarrow> string \<Rightarrow> int option" where
  "compare_part a b =
     (let typeA = ClassifyChar (first_char a);
          typeB = ClassifyChar (first_char b) in
      if typeA = typeB then
        (if typeA = Type_String then
           (let result = string_compare a b in
            if result \<noteq> 0 then Some result else None)
         else if typeA = Type_Number then
           (let intA = atoi a; intB = atoi b in
            if intA > intB then Some 1
            else if intA < intB then Some (- 1)
            else None)
         else None)
      else
        (if typeA \<noteq> Type_String \<and> typeB = Type_String then Some 1
         else if typeA = Type_String \<and> typeB \<noteq> Type_String then Some (- 1)
         else Some (if typeA = Type_Number then 1 else - 1)))"

text \<open>
  The loop \<^verbatim>\<open>for (i = 0; i < n; i++)\<close> with \<^verbatim>\<open>n = min(partsA.size(), partsB.size())\<close>:
  it walks both vectors in step and ends when either is used up.
\<close>

fun compare_common :: "string list \<Rightarrow> string list \<Rightarrow> int option" where
  "compare_common (a # as) (b # bs) =
     (case compare_part a b of
        Some r \<Rightarrow> Some r
      | None \<Rightarrow> compare_common as bs)"
| "compare_common _ _ = None"

definition CompareVersions :: "string \<Rightarrow> string \<Rightarrow> int" where
  "CompareVersions verA verB =
     (let partsA = SplitVersionString verA;
          partsB = SplitVersionString verB;
          n = min (length partsA) (length partsB) in
      case compare_common partsA partsB of
        Some r \<Rightarrow> r
      | None \<Rightarrow>
          if length partsA = length partsB then 0
          else
            (let (missingPartType, shorterResult, longerResult) =
                   (if length partsA > length partsB
                    then (ClassifyChar (first_char (partsA ! n)), - 1, 1)
                    else (ClassifyChar (first_char (partsB ! n)), 1, - 1)) in
             if missingPartType = Type_String then shorterResult else longerResult))"

section \<open>XML parsing (appcast.cpp)\<close>

subsection \<open>Names of nodes and attributes\<close>

definition NS_SPARKLE :: string where
  "NS_SPARKLE = ''http://www.andymatuschak.org/xml-namespaces/sparkle''"

definition NS_SPARKLE_NAME :: "string \<Rightarrow> string" where
  "NS_SPARKLE_NAME name = NS_SPARKLE @ ''#'' @ name"

definition NODE_CHANNEL :: string where "NODE_CHANNEL = ''channel''"
definition NODE_ITEM :: string where "NODE_ITEM = ''item''"
definition NODE_RELNOTES :: string where "NODE_RELNOTES = NS_SPARKLE_NAME ''releaseNotesLink''"
definition NODE_TITLE :: string where "NODE_TITLE = ''title''"
definition NODE_DESCRIPTION :: string where "NODE_DESCRIPTION = ''description''"
definition NODE_ENCLOSURE :: string where "NODE_ENCLOSURE = ''enclosure''"
definition ATTR_URL :: string where "ATTR_URL = ''url''"
definition ATTR_VERSION :: string where "ATTR_VERSION = NS_SPARKLE_NAME ''version''"
definition ATTR_SHORTVERSION :: string where
  "ATTR_SHORTVERSION = NS_SPARKLE_NAME ''shortVersionString''"

subsection \<open>The descriptor, the context and the events\<close>

text \<open>
  Modelled from the spec: the class \<^verbatim>\<open>Appcast\<close> is declared in \<^verbatim>\<open>appcast.h\<close>, which is
  not among the sources. Its fields are the six strings of the update descriptor of the
  specification; the handlers below assign three of them and append to the other three.
\<close>

record Appcast =
  Version :: string
  ShortVersionString :: string
  DownloadURL :: string
  ReleaseNotesURL :: string
  Title :: string
  Description :: string

text \<open>
  \<^verbatim>\<open>struct ContextData\<close>. The five counters are \<^verbatim>\<open>int\<close>; a document handed to
  \<^verbatim>\<open>XML_Parse\<close> has fewer than \<open>2^31\<close> bytes and so fewer tags than that, hence no
  counter can leave the range of \<^verbatim>\<open>int\<close> and the counters are modelled as integers.
  The reference to the parser is used by no handler and is left out.
\<close>

record ContextData =
  appcast :: Appcast
  in_channel :: int
  in_item :: int
  in_relnotes :: int
  in_title :: int
  in_description :: int

text \<open>
  The attribute array \<^verbatim>\<open>attrs\<close> (name, value, name, value, ..., null) is a list of
  pairs. An event is one call of a handler by the XML engine.
\<close>

type_synonym attrs = "(string \<times> string) list"

datatype xml_event =
    StartElement string attrs
  | EndElement string
  | CharacterData string

text \<open>
  The state the handlers work on: the context of the running parse and the
  static variable \<^verbatim>\<open>last_version\<close>, which outlives a parse.
\<close>

type_synonym parse_state = "ContextData \<times> string"

subsection \<open>OnStartElement\<close>

text \<open>
  The first loop over the attributes, run when \<^verbatim>\<open>last_version\<close> is not empty:
  \<^verbatim>\<open>go\<close> becomes 1 at a version attribute that \<^verbatim>\<open>last_version\<close> is smaller than.
\<close>

fun newer_version_loop :: "string \<Rightarrow> attrs \<Rightarrow> int \<Rightarrow> int" where
  "newer_version_loop last_version [] go = go"
| "newer_version_loop last_version ((name, val) # rest) go =
     newer_version_loop last_version rest
       (if name = ATTR_VERSION then
          (if CompareVersions last_version val < 0 then 1 else go)
        else go)"

text \<open>The second loop: the attributes are copied, and the version is remembered.\<close>

fun copy_attrs_loop :: "attrs \<Rightarrow> Appcast \<times> string \<Rightarrow> Appcast \<times> string" where
  "copy_attrs_loop [] st = st"
| "copy_attrs_loop ((name, val) # rest) (a, last_version) =
     copy_attrs_loop rest
       (if name = ATTR_URL then (a\<lparr>DownloadURL := val\<rparr>, last_version)
        else if name = ATTR_VERSION then (a\<lparr>Version := val\<rparr>, val)
        else if name = ATTR_SHORTVERSION then (a\<lparr>ShortVersionString := val\<rparr>, last_version)
        else (a, last_version))"

definition on_enclosure :: "attrs \<Rightarrow> Appcast \<times> string \<Rightarrow> Appcast \<times> string" where
  "on_enclosure atts st =
     (let go = (if length (snd st) > 0 then newer_version_loop (snd st) atts 0 else 1) in
      if go = 1 then copy_attrs_loop atts st else st)"

definition OnStartElement :: "string \<Rightarrow> attrs \<Rightarrow> parse_state \<Rightarrow> parse_state" where
  "OnStartElement name atts st =
     (let ctxt = fst st; last_version = snd st in
      if name = NODE_CHANNEL then (ctxt\<lparr>in_channel := in_channel ctxt + 1\<rparr>, last_version)
      else if in_channel ctxt \<noteq> 0 \<and> name = NODE_ITEM then
        (ctxt\<lparr>in_item := in_item ctxt + 1\<rparr>, last_version)
      else if in_item ctxt \<noteq> 0 then
        (if name = NODE_RELNOTES then (ctxt\<lparr>in_relnotes := in_relnotes ctxt + 1\<rparr>, last_version)
         else if name = NODE_TITLE then (ctxt\<lparr>in_title := in_title ctxt + 1\<rparr>, last_version)
         else if name = NODE_DESCRIPTION then
           (ctxt\<lparr>in_description := in_description ctxt + 1\<rparr>, last_version)
         else if name = NODE_ENCLOSURE then
           (let (a, lv) = on_enclosure atts (appcast ctxt, last_version) in
            (ctxt\<lparr>appcast := a\<rparr>, lv))
         else st)
      else st)"

subsection \<open>OnEndElement and OnText\<close>

definition OnEndElement :: "string \<Rightarrow> parse_state \<Rightarrow> parse_state" where
  "OnEndElement name st =
     (let ctxt = fst st; last_version = snd st in
      if in_item ctxt \<noteq> 0 \<and> name = NODE_RELNOTES then
        (ctxt\<lparr>in_relnotes := in_relnotes ctxt - 1\<rparr>, last_version)
      else if in_item ctxt \<noteq> 0 \<and> name = NODE_TITLE then
        (ctxt\<lparr>in_title := in_title ctxt - 1\<rparr>, last_version)
      else if in_item ctxt \<noteq> 0 \<and> name = NODE_DESCRIPTION then
        (ctxt\<lparr>in_description := in_description ctxt - 1\<rparr>, last_version)
      else if in_channel ctxt \<noteq> 0 \<and> name = NODE_ITEM then st
      else if name = NODE_CHANNEL then
        (ctxt\<lparr>in_channel := in_channel ctxt - 1\<rparr>, last_version)
      else st)"

definition OnText :: "string \<Rightarrow> parse_state \<Rightarrow> parse_state" where
  "OnText s st =
     (let ctxt = fst st; a = appcast ctxt in
      if in_relnotes ctxt \<noteq> 0 then
        (ctxt\<lparr>appcast := a\<lparr>ReleaseNotesURL := ReleaseNotesURL a @ s\<rparr>\<rparr>, snd st)
      else if in_title ctxt \<noteq> 0 then
        (ctxt\<lparr>appcast := a\<lparr>Title := Title a @ s\<rparr>\<rparr>, snd st)
      else if in_description ctxt \<noteq> 0 then
        (ctxt\<lparr>appcast := a\<lparr>Description := Description a @ s\<rparr>\<rparr>, snd st)
      else st)"

subsection \<open>Appcast::Load\<close>

fun handle_event :: "xml_event \<Rightarrow> parse_state \<Rightarrow> parse_state" where
  "handle_event (StartElement name atts) st = OnStartElement name atts st"
| "handle_event (EndElement name) st = OnEndElement name st"
| "handle_event (CharacterData s) st = OnText s st"

text \<open>The handlers are called in the order of the events.\<close>

fun run_events :: "xml_event list \<Rightarrow> parse_state \<Rightarrow> parse_state" where
  "run_events [] st = st"
| "run_events (e # es) st = run_events es (handle_event e st)"

text \<open>The constructor of \<^verbatim>\<open>ContextData\<close>: all counters are 0.\<close>

definition new_context :: "Appcast \<Rightarrow> ContextData" where
  "new_context a =
     \<lparr>appcast = a, in_channel = 0, in_item = 0, in_relnotes = 0, in_title = 0,
      in_description = 0\<rparr>"

definition empty_appcast :: Appcast where
  "empty_appcast =
     \<lparr>Version = [], ShortVersionString = [], DownloadURL = [], ReleaseNotesURL = [],
      Title = [], Description = []\<rparr>"

text \<open>
  The XML engine (expat) is not part of the repository and is a parameter of the
  model: whether \<^verbatim>\<open>XML_ParserCreateNS\<close> returns a parser; for the bytes fed to
  \<^verbatim>\<open>XML_Parse\<close> and its argument \<^verbatim>\<open>isFinal\<close> (whether these bytes are the last of the
  document), the events the handlers are called with before it returns, and the status
  it returns; and the text \<^verbatim>\<open>XML_ErrorString(XML_GetErrorCode(p))\<close> has after the call
  \<^verbatim>\<open>Load\<close> makes.
\<close>

datatype XML_Status = XML_STATUS_ERROR | XML_STATUS_OK | XML_STATUS_SUSPENDED

record XML_Engine =
  parser_created :: bool
  XML_Parse :: "string \<Rightarrow> bool \<Rightarrow> xml_event list \<times> XML_Status"
  XML_ErrorString :: "string \<Rightarrow> string"

datatype exn = runtime_error string

text \<open>
  \<^verbatim>\<open>Appcast::Load\<close> on the descriptor \<^verbatim>\<open>*this\<close>, with the value \<^verbatim>\<open>last_version\<close> has at
  the call. The result is the exception thrown, if any, and the descriptor and
  \<^verbatim>\<open>last_version\<close> as the call leaves them: the handlers write to both through
  references while \<^verbatim>\<open>XML_Parse\<close> runs. The whole document is fed in one call,
  \<^verbatim>\<open>XML_Parse(p, xml.c_str(), xml.size(), XML_TRUE)\<close>.
\<close>

definition Load :: "XML_Engine \<Rightarrow> string \<Rightarrow> Appcast \<times> string \<Rightarrow> (exn + unit) \<times> (Appcast \<times> string)" where
  "Load eng xml st =
     (if \<not> parser_created eng then (Inl (runtime_error ''Failed to create XML parser.''), st)
      else
        (let ctxt = new_context (fst st);
             (events, status) = XML_Parse eng xml True;
             (ctxt', last_version') = run_events events (ctxt, snd st) in
         if status = XML_STATUS_ERROR
         then (Inl (runtime_error (''XML parser error: '' @ XML_ErrorString eng xml)),
               (appcast ctxt', last_version'))
         else (Inr (), (appcast ctxt', last_version'))))"

section \<open>Notions used in the statements and proofs\<close>

text \<open>The class of a part, as the comparison reads it: \<^verbatim>\<open>ClassifyChar(a[0])\<close>.\<close>

definition part_type :: "string \<Rightarrow> CharType" where
  "part_type a = ClassifyChar (first_char a)"

text \<open>What one index of the loop contributes: the value returned there, or 0 when the loop goes on.\<close>

definition part_sign :: "string \<Rightarrow> string \<Rightarrow> int" where
  "part_sign a b = (case compare_part a b of None \<Rightarrow> 0 | Some r \<Rightarrow> r)"

text \<open>
  The whole comparison on two vectors of parts, by recursion on both: the loop over the
  common length followed by the look at the first part the shorter vector lacks.
\<close>

fun compare_lists :: "string list \<Rightarrow> string list \<Rightarrow> int" where
  "compare_lists [] [] = 0"
| "compare_lists (a # as) [] = (if part_type a = Type_String then - 1 else 1)"
| "compare_lists [] (b # bs) = (if part_type b = Type_String then 1 else - 1)"
| "compare_lists (a # as) (b # bs) =
     (if part_sign a b = 0 then compare_lists as bs else part_sign a b)"

text \<open>
  The number a string of decimal digits denotes, as an unbounded natural number:
  each digit times its power of ten.
\<close>

fun decimal_value :: "string \<Rightarrow> nat" where
  "decimal_value [] = 0"
| "decimal_value (c # cs) = digit_value c * 10 ^ length cs + decimal_value cs"

text \<open>A part as the splitting produces it: not empty, all characters of one class.\<close>

definition uniform_part :: "string \<Rightarrow> bool" where
  "uniform_part t \<longleftrightarrow> t \<noteq> [] \<and> (\<forall>c \<in> set t. ClassifyChar c = part_type t)"

text \<open>
  An accepted enclosure, in the words of the specification: each of the three
  attributes that is present replaces its field of the descriptor, and a field whose
  attribute is absent keeps its value. The XML engine rejects an element that has two
  attributes of one name, so the value of an attribute is \<open>map_of atts name\<close>.
\<close>

definition copy_present :: "attrs \<Rightarrow> Appcast \<Rightarrow> Appcast" where
  "copy_present atts a =
     a\<lparr>DownloadURL := (case map_of atts ATTR_URL of Some v \<Rightarrow> v | None \<Rightarrow> DownloadURL a),
       Version := (case map_of atts ATTR_VERSION of Some v \<Rightarrow> v | None \<Rightarrow> Version a),
       ShortVersionString :=
         (case map_of atts ATTR_SHORTVERSION of Some v \<Rightarrow> v | None \<Rightarrow> ShortVersionString a)\<rparr>"

text \<open>The start and the end events of the elements of one name in a sequence of events.\<close>

fun starts :: "string \<Rightarrow> xml_event list \<Rightarrow> nat" where
  "starts name [] = 0"
| "starts name (StartElement n atts # es) = (if n = name then 1 else 0) + starts name es"
| "starts name (e # es) = starts name es"

fun ends :: "string \<Rightarrow> xml_event list \<Rightarrow> nat" where
  "ends name [] = 0"
| "ends name (EndElement n # es) = (if n = name then 1 else 0) + ends name es"
| "ends name (e # es) = ends name es"

text \<open>
  The enclosures a run of the handlers looks at: the attribute lists of the start events
  of an enclosure that arrive while the item counter is not 0, in the order of the events.
\<close>

fun enclosures_seen :: "xml_event list \<Rightarrow> parse_state \<Rightarrow> attrs list" where
  "enclosures_seen [] st = []"
| "enclosures_seen (e # es) st =
     (case e of
        StartElement name atts \<Rightarrow>
          if name = NODE_ENCLOSURE \<and> in_item (fst st) \<noteq> 0 then [atts] else []
      | _ \<Rightarrow> [])
     @ enclosures_seen es (handle_event e st)"

text \<open>
  Several calls of \<^verbatim>\<open>Appcast::Load\<close> one after the other, each with the bytes it is
  given and the descriptor it is called on: the \<^verbatim>\<open>last_version\<close> the calls leave behind,
  each call starting with the one the call before it left, and the enclosures all the
  calls look at.
\<close>

fun last_version_after :: "XML_Engine \<Rightarrow> (string \<times> Appcast) list \<Rightarrow> string \<Rightarrow> string" where
  "last_version_after eng [] lv = lv"
| "last_version_after eng ((xml, a) # calls) lv =
     last_version_after eng calls (snd (snd (Load eng xml (a, lv))))"

fun seen_all :: "XML_Engine \<Rightarrow> (string \<times> Appcast) list \<Rightarrow> string \<Rightarrow> attrs list" where
  "seen_all eng [] lv = []"
| "seen_all eng ((xml, a) # calls) lv =
     enclosures_seen (fst (XML_Parse eng xml True)) (new_context a, lv)
     @ seen_all eng calls (snd (snd (Load eng xml (a, lv))))"

text \<open>
  The enclosure at index \<open>k\<close> is the first of \<open>encs\<close> with the greatest version, and \<open>lv\<close>
  is that version.
\<close>

definition first_greatest :: "attrs list \<Rightarrow> nat \<Rightarrow> string \<Rightarrow> bool" where
  "first_greatest encs k lv \<longleftrightarrow>
     k < length encs \<and> lv \<noteq> [] \<and>
     map_of (encs ! k) ATTR_VERSION = Some lv \<and>
     (\<forall>j < length encs. \<forall>v. map_of (encs ! j) ATTR_VERSION = Some v \<longrightarrow> CompareVersions v lv \<le> 0) \<and>
     (\<forall>j < k. \<forall>v. map_of (encs ! j) ATTR_VERSION = Some v \<longrightarrow> CompareVersions v lv < 0)"

text \<open>The descriptor \<open>a\<close> has the version of that enclosure, and its url and short version
  string where the enclosure has them.\<close>

definition best_enclosure :: "attrs list \<Rightarrow> nat \<Rightarrow> Appcast \<Rightarrow> string \<Rightarrow> bool" where
  "best_enclosure encs k a lv \<longleftrightarrow>
     first_greatest encs k lv \<and> Version a = lv \<and>
     (\<forall>u. map_of (encs ! k) ATTR_URL = Some u \<longrightarrow> DownloadURL a = u) \<and>
     (\<forall>s. map_of (encs ! k) ATTR_SHORTVERSION = Some s \<longrightarrow> ShortVersionString a = s)"

text \<open>Two descriptors with the same three fields of the enclosure rule.\<close>

definition same_selection :: "Appcast \<Rightarrow> Appcast \<Rightarrow> bool" where
  "same_selection a b \<longleftrightarrow>
     Version a = Version b \<and> DownloadURL a = DownloadURL b \<and>
     ShortVersionString a = ShortVersionString b"

text \<open>
  What holds of \<^verbatim>\<open>last_version\<close> between events: no enclosure has been looked at and it
  is empty, or it is the greatest version looked at.
\<close>

definition greatest_so_far :: "attrs list \<Rightarrow> string \<Rightarrow> bool" where
  "greatest_so_far seen lv \<longleftrightarrow> (seen = [] \<and> lv = []) \<or> (\<exists>k. first_greatest seen k lv)"

text \<open>
  What holds during a call of \<^verbatim>\<open>Load\<close> on the descriptor \<open>a0\<close> that started with
  \<open>lv0\<close>: either no enclosure of the call has been accepted, and \<^verbatim>\<open>last_version\<close> and
  the three fields are as at the start; or one has, \<^verbatim>\<open>last_version\<close> has grown and the
  descriptor shows the first enclosure with the greatest version.
\<close>

definition parse_inv :: "attrs list \<Rightarrow> Appcast \<Rightarrow> string \<Rightarrow> Appcast \<Rightarrow> string \<Rightarrow> bool" where
  "parse_inv seen a0 lv0 a lv \<longleftrightarrow>
     (lv = lv0 \<and> same_selection a a0 \<and> greatest_so_far seen lv0) \<or>
     (lv \<noteq> lv0 \<and> (lv0 \<noteq> [] \<longrightarrow> CompareVersions lv0 lv < 0) \<and> (\<exists>k. best_enclosure seen k a lv))"

text \<open>An enclosure with no attribute name twice and with a version that is not empty.\<close>

definition enclosure_ok :: "attrs \<Rightarrow> bool" where
  "enclosure_ok e \<longleftrightarrow> distinct (map fst e) \<and> (\<exists>v. map_of e ATTR_VERSION = Some v \<and> v \<noteq> [])"

text \<open>
  What the claims assume of the XML engine for malformed input. On bytes that are not
  a well-formed document (a document cut off before its end is not), \<^verbatim>\<open>XML_Parse\<close>
  returns \<^verbatim>\<open>XML_STATUS_ERROR\<close> when it is told that the bytes are the last ones. Which
  byte strings are well-formed is laid down by XML and is a parameter.
\<close>

definition reports_malformed :: "(string \<Rightarrow> bool) \<Rightarrow> XML_Engine \<Rightarrow> bool" where
  "reports_malformed well_formed eng \<longleftrightarrow>
     (\<forall>xml. \<not> well_formed xml \<longrightarrow> snd (XML_Parse eng xml True) = XML_STATUS_ERROR)"

section \<open>Engines to run the statements on\<close>

text \<open>
  The theorems hold for every engine. To apply them to concrete input, here is an
  engine for documents made of start tags \<^verbatim>\<open><name>\<close>, end tags \<^verbatim>\<open></name>\<close> and text.
  It reads the bytes from left to right, keeps the names of the open elements,
  and reports the events in order. It stops with an error at an end tag that does not
  close the innermost open element, at text or a second element outside the root
  element, and, when the bytes are final, at the end of the bytes inside a tag, with an
  element open or without any element.
\<close>

definition flush_text :: "string \<Rightarrow> xml_event list \<Rightarrow> xml_event list" where
  "flush_text text evs = (if text = [] then evs else evs @ [CharacterData text])"

fun simple_scan ::
  "string \<Rightarrow> string option \<Rightarrow> string \<Rightarrow> string list \<Rightarrow> bool \<Rightarrow> xml_event list \<Rightarrow> bool \<Rightarrow>
   (xml_event list \<times> XML_Status) \<times> string" where
  "simple_scan [] tag text opened root evs final =
     (if \<not> final then ((flush_text text evs, XML_STATUS_OK), [])
      else if tag \<noteq> None then ((evs, XML_STATUS_ERROR), ''unclosed token'')
      else if opened \<noteq> [] \<or> \<not> root then ((flush_text text evs, XML_STATUS_ERROR), ''no element found'')
      else ((evs, XML_STATUS_OK), []))"
| "simple_scan (c # cs) (Some t) text opened root evs final =
     (if c \<noteq> CHR ''>'' then simple_scan cs (Some (t @ [c])) text opened root evs final
      else
        (case t of
           [] \<Rightarrow> ((evs, XML_STATUS_ERROR), ''not well-formed (invalid token)'')
         | d # name \<Rightarrow>
             if d = CHR ''/'' then
               (case opened of
                  [] \<Rightarrow> ((evs, XML_STATUS_ERROR), ''not well-formed (invalid token)'')
                | inner # rest \<Rightarrow>
                    if inner = name
                    then simple_scan cs None [] rest root (evs @ [EndElement name]) final
                    else ((evs, XML_STATUS_ERROR), ''mismatched tag''))
             else if opened = [] \<and> root
               then ((evs, XML_STATUS_ERROR), ''junk after document element'')
             else simple_scan cs None [] (t # opened) True (evs @ [StartElement t []]) final))"
| "simple_scan (c # cs) None text opened root evs final =
     (if c = CHR ''<'' then simple_scan cs (Some []) [] opened root (flush_text text evs) final
      else if opened = [] then
        (if isspace c then simple_scan cs None [] opened root evs final
         else ((evs, XML_STATUS_ERROR),
               if root then ''junk after document element'' else ''syntax error''))
      else simple_scan cs None (text @ [c]) opened root evs final)"

definition simple_engine :: XML_Engine where
  "simple_engine =
     \<lparr>parser_created = True,
      XML_Parse = (\<lambda>xml isFinal. fst (simple_scan xml None [] [] False [] isFinal)),
      XML_ErrorString = (\<lambda>xml. snd (simple_scan xml None [] [] False [] True))\<rparr>"

definition simple_well_formed :: "string \<Rightarrow> bool" where
  "simple_well_formed xml \<longleftrightarrow> snd (XML_Parse simple_engine xml True) \<noteq> XML_STATUS_ERROR"

text \<open>
  An engine that knows two feeds by name and reports their events: \<open>feed1\<close> has one
  item with an enclosure of version \<open>1.0\<close>; \<open>feed2\<close> has an item with a title and an
  enclosure of version \<open>2.0\<close>, and a second item with an enclosure of version \<open>1.5\<close>.
\<close>

definition two_feeds :: XML_Engine where
  "two_feeds =
     \<lparr>parser_created = True,
      XML_Parse = (\<lambda>xml isFinal.
        (if xml = ''feed1'' then
           [StartElement NODE_CHANNEL [], StartElement NODE_ITEM [],
            StartElement NODE_ENCLOSURE [(ATTR_URL, ''a''), (ATTR_VERSION, ''1.0'')],
            EndElement NODE_ITEM, EndElement NODE_CHANNEL]
         else
           [StartElement NODE_CHANNEL [], StartElement NODE_ITEM [],
            StartElement NODE_TITLE [], CharacterData ''T'', EndElement NODE_TITLE,
            StartElement NODE_ENCLOSURE [(ATTR_URL, ''b''), (ATTR_VERSION, ''2.0'')],
            EndElement NODE_ITEM, StartElement NODE_ITEM [],
            StartElement NODE_ENCLOSURE [(ATTR_URL, ''c''), (ATTR_VERSION, ''1.5'')],
            EndElement NODE_ITEM, EndElement NODE_CHANNEL],
         XML_STATUS_OK)),
      XML_ErrorString = (\<lambda>xml. [])\<rparr>"

section \<open>Properties of the version comparison\<close>

subsection \<open>\<^verbatim>\<open>std::string::compare\<close> and one index of the loop\<close>

lemma string_compare_range: "string_compare a b = -1 \<or> string_compare a b = 0 \<or> string_compare a b = 1"
  by (induction a b rule: string_compare.induct) auto

lemma string_compare_anti: "string_compare b a = - string_compare a b"
  by (induction a b rule: string_compare.induct) auto

lemma string_compare_eq: "string_compare a b = 0 \<longleftrightarrow> a = b"
  by (induction a b rule: string_compare.induct) auto

lemma string_compare_Nil: "string_compare [] c \<le> 0"
  by (cases c) auto

lemma string_compare_trans:
  "string_compare a b \<le> 0 \<Longrightarrow> string_compare b c \<le> 0 \<Longrightarrow> string_compare a c \<le> 0"
proof (induction a b arbitrary: c rule: string_compare.induct)
  case (4 x xs y ys)
  then show ?case by (cases c) (auto split: if_splits)
qed (auto simp: string_compare_Nil)

lemma part_sign_range: "part_sign a b = -1 \<or> part_sign a b = 0 \<or> part_sign a b = 1"
  using string_compare_range [of a b]
  by (auto simp: part_sign_def compare_part_def Let_def)

lemma part_sign_anti: "part_sign b a = - part_sign a b"
  using string_compare_anti [of a b]
  by (cases "part_type a"; cases "part_type b") (auto simp: part_sign_def part_type_def compare_part_def Let_def)

lemma part_sign_zero_type: "part_sign a b = 0 \<Longrightarrow> part_type a = part_type b"
  by (auto simp: part_sign_def part_type_def compare_part_def Let_def split: if_splits)

lemma part_sign_trans:
  "part_sign a b \<le> 0 \<Longrightarrow> part_sign b c \<le> 0 \<Longrightarrow> part_sign a c \<le> 0"
  using string_compare_trans [of a b c] string_compare_range [of a b] string_compare_range [of b c] string_compare_range [of a c]
  by (cases "part_type a"; cases "part_type b"; cases "part_type c")
     (auto simp: part_sign_def part_type_def compare_part_def Let_def split: if_splits)


lemma part_sign_strict:
  assumes "part_sign a b \<le> 0" "part_sign b c \<le> 0" "part_sign a c = 0"
  shows "part_sign a b = 0 \<and> part_sign b c = 0"
proof -
  have ca: "part_sign c a \<le> 0" using assms(3) part_sign_anti [of a c] by simp
  have "part_sign c b \<le> 0" using part_sign_trans [OF ca assms(1)] .
  then have bc: "part_sign b c = 0" using assms(2) part_sign_anti [of b c] by simp
  have "part_sign b a \<le> 0" using part_sign_trans [OF assms(2) ca] .
  then have "part_sign a b = 0" using assms(1) part_sign_anti [of a b] by simp
  with bc show ?thesis by simp
qed

lemma part_sign_type_mono:
  "part_sign a b \<le> 0 \<Longrightarrow> part_type b = Type_String \<Longrightarrow> part_type a = Type_String"
  by (auto simp: part_sign_def part_type_def compare_part_def Let_def split: if_splits)

lemma part_sign_String_less:
  "part_type a = Type_String \<Longrightarrow> part_type b \<noteq> Type_String \<Longrightarrow> part_sign a b = - 1"
  by (auto simp: part_sign_def part_type_def compare_part_def Let_def)

lemma compare_common_Some:
  "compare_common as bs = Some r \<Longrightarrow> compare_lists as bs = r \<and> r \<noteq> 0"
  by (induction as bs rule: compare_common.induct)
     (auto simp: part_sign_def compare_part_def Let_def split: option.splits if_splits)

lemma compare_common_None:
  "compare_common as bs = None \<Longrightarrow>
   compare_lists as bs =
     (if length as = length bs then 0
      else if length as > length bs
      then (if part_type (as ! length bs) = Type_String then - 1 else 1)
      else (if part_type (bs ! length as) = Type_String then 1 else - 1))"
proof (induction as bs rule: compare_lists.induct)
  case (4 a as b bs)
  then show ?case by (auto simp: part_sign_def split: option.splits)
qed auto

lemma CompareVersions_lists:
  "CompareVersions verA verB = compare_lists (SplitVersionString verA) (SplitVersionString verB)"
proof (cases "compare_common (SplitVersionString verA) (SplitVersionString verB)")
  case None
  then show ?thesis
    using compare_common_None [OF None]
    by (auto simp: CompareVersions_def Let_def part_type_def min_def)
next
  case (Some r)
  then show ?thesis
    using compare_common_Some [OF Some]
    by (simp add: CompareVersions_def Let_def)
qed

lemma compare_lists_range:
  "compare_lists as bs = - 1 \<or> compare_lists as bs = 0 \<or> compare_lists as bs = 1"
proof (induction as bs rule: compare_lists.induct)
  case (4 a as b bs)
  then show ?case using part_sign_range [of a b] by auto
qed auto

lemma compare_lists_anti: "compare_lists bs as = - compare_lists as bs"
proof (induction as bs rule: compare_lists.induct)
  case (4 a as b bs)
  then show ?case using part_sign_anti [of a b] by auto
qed auto

lemma compare_lists_refl: "compare_lists as as = 0"
proof (induction as)
  case (Cons a as)
  then show ?case using part_sign_anti [of a a] by simp
qed simp

lemma compare_lists_trans:
  "compare_lists as bs \<le> 0 \<Longrightarrow> compare_lists bs cs \<le> 0 \<Longrightarrow> compare_lists as cs \<le> 0"
proof (induction as arbitrary: bs cs)
  case Nil
  show ?case
  proof (cases cs)
    case (Cons c cs')
    show ?thesis
    proof (cases bs)
      case Nil
      with Cons \<open>compare_lists bs cs \<le> 0\<close> show ?thesis by simp
    next
      case (Cons b bs')
      with \<open>cs = c # cs'\<close> Nil.prems part_sign_type_mono [of b c] show ?thesis
        by (auto split: if_splits)
    qed
  qed simp
next
  case (Cons a as)
  show ?case
  proof (cases bs)
    case Nil
    with Cons.prems part_sign_String_less [of a] show ?thesis
      by (cases cs) (auto split: if_splits)
  next
    case b: (Cons b bs')
    show ?thesis
    proof (cases cs)
      case Nil
      with b Cons.prems part_sign_type_mono [of a b] show ?thesis
        by (auto split: if_splits)
    next
      case c: (Cons c cs')
      have ab: "part_sign a b \<le> 0" and bc: "part_sign b c \<le> 0"
        using Cons.prems b c by (auto split: if_splits)
      have ac: "part_sign a c \<le> 0" using part_sign_trans [OF ab bc] .
      show ?thesis
      proof (cases "part_sign a c = 0")
        case True
        from part_sign_strict [OF ab bc True] Cons.prems b c
        have "compare_lists as bs' \<le> 0" "compare_lists bs' cs' \<le> 0" by auto
        then have "compare_lists as cs' \<le> 0" by (rule Cons.IH)
        with True c show ?thesis by simp
      next
        case False
        with ac c show ?thesis by simp
      qed
    qed
  qed
qed

subsection \<open>The parts of a version string\<close>

lemmas char_eval = ClassifyChar_def less_eq_char_def less_char_def isdigit_def isspace_def
  digit_value_def first_char_def part_type_def

lemmas cv_eval = CompareVersions_def SplitVersionString_def compare_part_def atoi_def
  INT_MAX_def INT_MIN_def Let_def char_eval

lemma digits_value_decimal:
  "\<forall>c \<in> set s. isdigit c \<Longrightarrow> digits_value s acc = acc * 10 ^ length s + decimal_value s"
  by (induction s arbitrary: acc) (auto simp: algebra_simps)

lemma isdigit_Number: "isdigit c \<longleftrightarrow> ClassifyChar c = Type_Number"
  by (auto simp: char_eval)

lemma Number_not_space: "ClassifyChar c = Type_Number \<Longrightarrow> \<not> isspace c \<and> c \<noteq> CHR ''-'' \<and> c \<noteq> CHR ''+''"
  by (auto simp: char_eval split: if_splits)

lemma atoi_Number_part:
  assumes "uniform_part a" "part_type a = Type_Number"
  shows "atoi a = min INT_MAX (int (decimal_value a))"
proof -
  from assms obtain c r where a: "a = c # r" by (cases a) (auto simp: uniform_part_def)
  from assms a have c: "ClassifyChar c = Type_Number" by (simp add: part_type_def first_char_def)
  from assms have d: "\<forall>c \<in> set a. isdigit c" by (simp add: uniform_part_def isdigit_Number)
  from Number_not_space [OF c] a have "atoi a = min INT_MAX (int (digits_value a 0))"
    by (simp add: atoi_def)
  with digits_value_decimal [OF d, of 0] show ?thesis by simp
qed

lemma split_loop_uniform:
  "s \<noteq> [] \<Longrightarrow> \<forall>c \<in> set s. ClassifyChar c = prevType \<Longrightarrow> \<forall>t \<in> set list. uniform_part t \<Longrightarrow>
   \<forall>t \<in> set (split_loop cs s prevType list). uniform_part t"
proof (induction cs s prevType list rule: split_loop.induct)
  case (1 s prevType list)
  then show ?case by (cases s) (auto simp: uniform_part_def part_type_def first_char_def)
next
  case (2 c cs s prevType list)
  have s: "uniform_part s" using "2.prems" by (cases s) (auto simp: uniform_part_def part_type_def first_char_def)
  show ?case
  proof (cases "prevType \<noteq> ClassifyChar c \<or> prevType = Type_Period")
    case True
    have "\<forall>t\<in>set (split_loop cs [c] (ClassifyChar c) (list @ [s])). uniform_part t"
      using True "2.prems" s by (intro "2.IH"(1)) auto
    with True show ?thesis by (simp add: Let_def)
  next
    case False
    have "\<forall>t\<in>set (split_loop cs (s @ [c]) (ClassifyChar c) list). uniform_part t"
      using False "2.prems" by (intro "2.IH"(2)) auto
    with False show ?thesis by (simp add: Let_def)
  qed
qed

lemma SplitVersionString_uniform: "t \<in> set (SplitVersionString v) \<Longrightarrow> uniform_part t"
proof (cases v)
  case Nil
  assume "t \<in> set (SplitVersionString v)"
  with Nil show ?thesis by (simp add: SplitVersionString_def)
next
  case (Cons c0 rest)
  assume t: "t \<in> set (SplitVersionString v)"
  have "\<forall>t \<in> set (split_loop rest [c0] (ClassifyChar c0) []). uniform_part t"
    by (rule split_loop_uniform) auto
  with t Cons show ?thesis by (simp add: SplitVersionString_def)
qed

lemma compare_common_drop:
  "compare_common (take i as) (take i bs) = None \<Longrightarrow> i \<le> length as \<Longrightarrow> i \<le> length bs \<Longrightarrow>
   compare_common as bs = compare_common (drop i as) (drop i bs)"
proof (induction as bs arbitrary: i rule: compare_common.induct)
  case (1 a as b bs)
  then show ?case by (cases i) (auto split: option.splits)
qed auto

lemma compare_common_at:
  assumes "compare_common (take i as) (take i bs) = None" "i < length as" "i < length bs"
  shows "compare_common as bs =
     (case compare_part (as ! i) (bs ! i) of Some r \<Rightarrow> Some r
      | None \<Rightarrow> compare_common (drop (Suc i) as) (drop (Suc i) bs))"
proof -
  have "compare_common as bs = compare_common (drop i as) (drop i bs)"
    using assms by (intro compare_common_drop) auto
  also have "drop i as = as ! i # drop (Suc i) as" using assms by (simp add: Cons_nth_drop_Suc)
  also have "drop i bs = bs ! i # drop (Suc i) bs" using assms by (simp add: Cons_nth_drop_Suc)
  finally show ?thesis by simp
qed

subsection \<open>The comparison is a total preorder\<close>

lemma CompareVersions_anti: "CompareVersions b a = - CompareVersions a b"
  unfolding CompareVersions_lists by (rule compare_lists_anti)

lemma CompareVersions_trans_le:
  "CompareVersions a b \<le> 0 \<Longrightarrow> CompareVersions b c \<le> 0 \<Longrightarrow> CompareVersions a c \<le> 0"
  unfolding CompareVersions_lists by (rule compare_lists_trans)

lemma CompareVersions_refl: "CompareVersions a a = 0"
  by (simp add: CompareVersions_lists compare_lists_refl)

text \<open>
  Claim C4. For all version strings \<open>a\<close>, \<open>b\<close>, \<open>c\<close>: comparing \<open>a\<close> with itself gives 0;
  swapping the arguments negates the result; and if \<open>a\<close> is greater than \<open>b\<close> and \<open>b\<close>
  greater than \<open>c\<close> then \<open>a\<close> is greater than \<open>c\<close>. This holds for every string, hence for
  the well-formed dotted-numeric ones with a suffix.
\<close>

theorem CompareVersions_consistent:
  "CompareVersions a a = 0 \<and>
   CompareVersions a b = - CompareVersions b a \<and>
   (CompareVersions a b > 0 \<and> CompareVersions b c > 0 \<longrightarrow> CompareVersions a c > 0)"
proof (intro conjI impI)
  show "CompareVersions a a = 0" by (rule CompareVersions_refl)
  show "CompareVersions a b = - CompareVersions b a" by (rule CompareVersions_anti)
  assume h: "CompareVersions a b > 0 \<and> CompareVersions b c > 0"
  show "CompareVersions a c > 0"
  proof (rule ccontr)
    assume "\<not> CompareVersions a c > 0"
    then have ac: "CompareVersions a c \<le> 0" by simp
    from h have cb: "CompareVersions c b \<le> 0" using CompareVersions_anti [of c b] by simp
    from CompareVersions_trans_le [OF ac cb] h show False by simp
  qed
qed

text \<open>The three properties at \<open>1.5.1 > 1.5 > 1.5b3\<close>.\<close>

theorem CompareVersions_consistent_witness:
  "CompareVersions ''1.5.1'' ''1.5'' > 0 \<and> CompareVersions ''1.5'' ''1.5b3'' > 0 \<and>
   CompareVersions ''1.5.1'' ''1.5b3'' > 0 \<and>
   CompareVersions ''1.5'' ''1.5.1'' = - CompareVersions ''1.5.1'' ''1.5''"
proof -
  have h: "CompareVersions ''1.5.1'' ''1.5'' > 0 \<and> CompareVersions ''1.5'' ''1.5b3'' > 0"
    by (simp add: cv_eval)
  from h CompareVersions_consistent [of "''1.5.1''" "''1.5''" "''1.5b3''"]
    CompareVersions_consistent [of "''1.5''" "''1.5.1''"]
  show ?thesis by blast
qed

subsection \<open>Numeric parts\<close>

text \<open>
  Claim C5, as stated, for digit strings of any length: where both parts at an index
  are numbers, the index decides as the comparison of the two base-10 values does.
  The code compares the \<^verbatim>\<open>int\<close> values \<^verbatim>\<open>atoi\<close> returns, so this fails beyond
  \<^verbatim>\<open>INT_MAX\<close>: \<open>2147483648\<close> is greater than \<open>2147483647\<close>, but the two parts compare equal
  and so do the two versions.
\<close>

theorem compare_part_Number_counterexample:
  "SplitVersionString ''2147483648'' = [''2147483648''] \<and>
   SplitVersionString ''2147483647'' = [''2147483647''] \<and>
   ClassifyChar (first_char ''2147483648'') = Type_Number \<and>
   ClassifyChar (first_char ''2147483647'') = Type_Number \<and>
   decimal_value ''2147483648'' > decimal_value ''2147483647'' \<and>
   compare_part ''2147483648'' ''2147483647'' = None \<and>
   CompareVersions ''2147483648'' ''2147483647'' = 0"
  by (simp add: cv_eval)

text \<open>
  Claim C5, amended. For every pair of version strings and every index of the walk
  at which both parts are numbers whose base-10 values are at most \<^verbatim>\<open>INT_MAX\<close>:
  the loop body returns 1 when the first value is greater, -1 when it is smaller, and
  goes on to the next index when the values are equal. So, when the walk reaches that
  index undecided, a difference of the values is the result of the whole comparison,
  and equality leaves the decision to the parts after that index.
\<close>

theorem compare_part_Number_in_range:
  assumes "pa = SplitVersionString verA" "pb = SplitVersionString verB"
    and "i < length pa" "i < length pb"
    and "ClassifyChar (first_char (pa ! i)) = Type_Number"
    and "ClassifyChar (first_char (pb ! i)) = Type_Number"
    and "int (decimal_value (pa ! i)) \<le> INT_MAX" "int (decimal_value (pb ! i)) \<le> INT_MAX"
  shows "compare_part (pa ! i) (pb ! i) =
           (if decimal_value (pa ! i) > decimal_value (pb ! i) then Some 1
            else if decimal_value (pa ! i) < decimal_value (pb ! i) then Some (- 1)
            else None) \<and>
         (compare_common (take i pa) (take i pb) = None \<longrightarrow>
            (decimal_value (pa ! i) > decimal_value (pb ! i) \<longrightarrow> CompareVersions verA verB = 1) \<and>
            (decimal_value (pa ! i) < decimal_value (pb ! i) \<longrightarrow> CompareVersions verA verB = - 1) \<and>
            (decimal_value (pa ! i) = decimal_value (pb ! i) \<longrightarrow>
               compare_common pa pb = compare_common (drop (Suc i) pa) (drop (Suc i) pb)))"
proof -
  let ?a = "pa ! i" and ?b = "pb ! i"
  have ua: "uniform_part ?a"
    using assms(1,3) SplitVersionString_uniform [of ?a verA] by simp
  have ub: "uniform_part ?b"
    using assms(2,4) SplitVersionString_uniform [of ?b verB] by simp
  have ia: "atoi ?a = int (decimal_value ?a)"
    using atoi_Number_part [OF ua] assms(5,7) by (simp add: part_type_def)
  have ib: "atoi ?b = int (decimal_value ?b)"
    using atoi_Number_part [OF ub] assms(6,8) by (simp add: part_type_def)
  have step: "compare_part ?a ?b =
           (if decimal_value ?a > decimal_value ?b then Some 1
            else if decimal_value ?a < decimal_value ?b then Some (- 1)
            else None)"
    using assms(5,6) ia ib by (simp add: compare_part_def)
  have walk: "compare_common pa pb =
       (case compare_part ?a ?b of Some r \<Rightarrow> Some r
        | None \<Rightarrow> compare_common (drop (Suc i) pa) (drop (Suc i) pb))"
    if "compare_common (take i pa) (take i pb) = None"
    using compare_common_at [OF that assms(3,4)] .
  have res: "CompareVersions verA verB = r" if "compare_common pa pb = Some r" for r
    using that assms(1,2) by (simp add: CompareVersions_def)
  show ?thesis
    using step walk res by (auto split: if_splits)
qed

text \<open>The parts \<open>10\<close> and \<open>9\<close> at index 2 of \<open>1.10\<close> and \<open>1.9\<close>.\<close>

theorem compare_part_Number_in_range_witness:
  "SplitVersionString ''1.10'' = [''1'', ''.'', ''10''] \<and>
   SplitVersionString ''1.9'' = [''1'', ''.'', ''9''] \<and>
   compare_part ''10'' ''9'' = Some 1 \<and> CompareVersions ''1.10'' ''1.9'' = 1"
proof -
  have a: "SplitVersionString ''1.10'' = [''1'', ''.'', ''10'']"
    and b: "SplitVersionString ''1.9'' = [''1'', ''.'', ''9'']"
    by (simp_all add: cv_eval)
  have w: "compare_common (take 2 [''1'', ''.'', ''10'']) (take 2 [''1'', ''.'', ''9'']) = None"
    by (simp add: cv_eval)
  have "compare_part ([''1'', ''.'', ''10''] ! 2) ([''1'', ''.'', ''9''] ! 2) = Some 1 \<and>
        CompareVersions ''1.10'' ''1.9'' = 1"
    using compare_part_Number_in_range [OF a [symmetric] b [symmetric], of 2] w
    by (simp add: cv_eval)
  then show ?thesis using a b by simp
qed

subsection \<open>Parts of different classes, and versions of different lengths\<close>

text \<open>
  Claim C3. For every pair of version strings: when the walk over the parts reaches,
  undecided, an index where the two parts differ in class, the comparison ends there;
  a number or a period ranks above a string part, and a number above a period. When the
  walk uses up the shorter vector of parts undecided, the first part the longer one has
  beyond it decides: if it is a string part the shorter version is the greater, if it is
  a number or a period the longer one is. The six examples of the specification hold.
\<close>

theorem CompareVersions_mixed_and_longer:
  assumes "pa = SplitVersionString verA" "pb = SplitVersionString verB"
  shows
  "(i < length pa \<and> i < length pb \<and> compare_common (take i pa) (take i pb) = None \<and>
      ClassifyChar (first_char (pa ! i)) \<noteq> ClassifyChar (first_char (pb ! i)) \<longrightarrow>
      CompareVersions verA verB =
        (if ClassifyChar (first_char (pb ! i)) = Type_String then 1
         else if ClassifyChar (first_char (pa ! i)) = Type_String then - 1
         else if ClassifyChar (first_char (pa ! i)) = Type_Number then 1
         else - 1)) \<and>
   (compare_common pa pb = None \<and> length pa > length pb \<longrightarrow>
      CompareVersions verA verB =
        (if ClassifyChar (first_char (pa ! length pb)) = Type_String then - 1 else 1)) \<and>
   (compare_common pa pb = None \<and> length pa < length pb \<longrightarrow>
      CompareVersions verA verB =
        (if ClassifyChar (first_char (pb ! length pa)) = Type_String then 1 else - 1)) \<and>
   CompareVersions ''1.2.0'' ''1.2rc1'' > 0 \<and>
   CompareVersions ''1.2rc1'' ''1.2.0'' < 0 \<and>
   CompareVersions ''1.5'' ''1.5b3'' > 0 \<and>
   CompareVersions ''1.5.1'' ''1.5'' > 0 \<and>
   CompareVersions ''2.0'' ''2.0'' = 0 \<and>
   CompareVersions ''1.0'' ''1.0.0'' < 0"
proof -
  have mixed: "CompareVersions verA verB =
        (if ClassifyChar (first_char (pb ! i)) = Type_String then 1
         else if ClassifyChar (first_char (pa ! i)) = Type_String then - 1
         else if ClassifyChar (first_char (pa ! i)) = Type_Number then 1
         else - 1)"
    if h: "i < length pa" "i < length pb" "compare_common (take i pa) (take i pb) = None"
      "ClassifyChar (first_char (pa ! i)) \<noteq> ClassifyChar (first_char (pb ! i))"
  proof -
    have "compare_part (pa ! i) (pb ! i) =
        Some (if ClassifyChar (first_char (pb ! i)) = Type_String then 1
         else if ClassifyChar (first_char (pa ! i)) = Type_String then - 1
         else if ClassifyChar (first_char (pa ! i)) = Type_Number then 1
         else - 1)"
      using h(4)
      by (cases "ClassifyChar (first_char (pa ! i))"; cases "ClassifyChar (first_char (pb ! i))")
         (simp_all add: compare_part_def)
    with compare_common_at [OF h(3) h(1) h(2)] assms show ?thesis
      by (simp add: CompareVersions_def)
  qed
  have longer: "CompareVersions verA verB =
        (if ClassifyChar (first_char (pa ! length pb)) = Type_String then - 1 else 1)"
    if "compare_common pa pb = None" "length pa > length pb"
    using that assms by (simp add: CompareVersions_def min_def)
  have shorter: "CompareVersions verA verB =
        (if ClassifyChar (first_char (pb ! length pa)) = Type_String then 1 else - 1)"
    if "compare_common pa pb = None" "length pa < length pb"
    using that assms by (simp add: CompareVersions_def min_def)
  have e1: "CompareVersions ''1.2.0'' ''1.2rc1'' > 0" by (simp add: cv_eval)
  have e2: "CompareVersions ''1.2rc1'' ''1.2.0'' < 0" by (simp add: cv_eval)
  have e3: "CompareVersions ''1.5'' ''1.5b3'' > 0" by (simp add: cv_eval)
  have e4: "CompareVersions ''1.5.1'' ''1.5'' > 0" by (simp add: cv_eval)
  have e5: "CompareVersions ''2.0'' ''2.0'' = 0" by (simp add: cv_eval)
  have e6: "CompareVersions ''1.0'' ''1.0.0'' < 0" by (simp add: cv_eval)
  from mixed longer shorter e1 e2 e3 e4 e5 e6 show ?thesis by blast
qed

text \<open>
  The parts at index 3 of \<open>1.2.0\<close> and \<open>1.2rc1\<close> are a period and a string; \<open>1.5.1\<close> is
  longer than \<open>1.5\<close> by a period, and \<open>1.5b3\<close> longer than \<open>1.5\<close> by a string part.
\<close>

theorem CompareVersions_mixed_and_longer_witness:
  "SplitVersionString ''1.2.0'' = [''1'', ''.'', ''2'', ''.'', ''0''] \<and>
   SplitVersionString ''1.2rc1'' = [''1'', ''.'', ''2'', ''rc'', ''1''] \<and>
   compare_common (take 3 [''1'', ''.'', ''2'', ''.'', ''0''])
     (take 3 [''1'', ''.'', ''2'', ''rc'', ''1'']) = None \<and>
   ClassifyChar (first_char ''.'') = Type_Period \<and>
   ClassifyChar (first_char ''rc'') = Type_String \<and>
   CompareVersions ''1.2.0'' ''1.2rc1'' = 1 \<and>
   SplitVersionString ''1.5.1'' = [''1'', ''.'', ''5'', ''.'', ''1''] \<and>
   SplitVersionString ''1.5'' = [''1'', ''.'', ''5''] \<and>
   SplitVersionString ''1.5b3'' = [''1'', ''.'', ''5'', ''b'', ''3''] \<and>
   compare_common [''1'', ''.'', ''5'', ''.'', ''1''] [''1'', ''.'', ''5''] = None \<and>
   CompareVersions ''1.5.1'' ''1.5'' = 1 \<and>
   compare_common [''1'', ''.'', ''5''] [''1'', ''.'', ''5'', ''b'', ''3''] = None \<and>
   ClassifyChar (first_char ''b'') = Type_String \<and>
   CompareVersions ''1.5'' ''1.5b3'' = 1"
proof -
  have a: "SplitVersionString ''1.2.0'' = [''1'', ''.'', ''2'', ''.'', ''0'']"
    and b: "SplitVersionString ''1.2rc1'' = [''1'', ''.'', ''2'', ''rc'', ''1'']"
    and c: "SplitVersionString ''1.5.1'' = [''1'', ''.'', ''5'', ''.'', ''1'']"
    and d: "SplitVersionString ''1.5'' = [''1'', ''.'', ''5'']"
    and e: "SplitVersionString ''1.5b3'' = [''1'', ''.'', ''5'', ''b'', ''3'']"
    by (simp_all add: cv_eval)
  have w: "compare_common (take 3 [''1'', ''.'', ''2'', ''.'', ''0''])
             (take 3 [''1'', ''.'', ''2'', ''rc'', ''1'']) = None"
    and w1: "compare_common [''1'', ''.'', ''5'', ''.'', ''1''] [''1'', ''.'', ''5''] = None"
    and w2: "compare_common [''1'', ''.'', ''5''] [''1'', ''.'', ''5'', ''b'', ''3''] = None"
    by (simp_all add: cv_eval)
  have t: "ClassifyChar (first_char ''.'') = Type_Period"
    "ClassifyChar (first_char ''rc'') = Type_String"
    "ClassifyChar (first_char ''b'') = Type_String"
    by (simp_all add: char_eval)
  have r1: "CompareVersions ''1.2.0'' ''1.2rc1'' = 1"
    using CompareVersions_mixed_and_longer [OF a [symmetric] b [symmetric], of 3] w t
    by simp
  have r2: "CompareVersions ''1.5.1'' ''1.5'' = 1"
    using CompareVersions_mixed_and_longer [OF c [symmetric] d [symmetric], of 0] w1 t
    by simp
  have r3: "CompareVersions ''1.5'' ''1.5b3'' = 1"
    using CompareVersions_mixed_and_longer [OF d [symmetric] e [symmetric], of 0] w2 t
    by simp
  from a b c d e w w1 w2 t r1 r2 r3 show ?thesis by simp
qed

section \<open>Properties of the parser\<close>

subsection \<open>The enclosure rule\<close>

lemmas name_defs = NS_SPARKLE_def NS_SPARKLE_NAME_def NODE_CHANNEL_def NODE_ITEM_def
  NODE_RELNOTES_def NODE_TITLE_def NODE_DESCRIPTION_def NODE_ENCLOSURE_def ATTR_URL_def
  ATTR_VERSION_def ATTR_SHORTVERSION_def

lemma attr_names_distinct:
  "ATTR_URL \<noteq> ATTR_VERSION" "ATTR_URL \<noteq> ATTR_SHORTVERSION" "ATTR_VERSION \<noteq> ATTR_SHORTVERSION"
  "ATTR_VERSION \<noteq> ATTR_URL" "ATTR_SHORTVERSION \<noteq> ATTR_URL" "ATTR_SHORTVERSION \<noteq> ATTR_VERSION"
  by (simp_all add: name_defs)

lemma node_names_distinct:
  "NODE_ENCLOSURE \<noteq> NODE_CHANNEL" "NODE_ENCLOSURE \<noteq> NODE_ITEM" "NODE_ENCLOSURE \<noteq> NODE_RELNOTES"
  "NODE_ENCLOSURE \<noteq> NODE_TITLE" "NODE_ENCLOSURE \<noteq> NODE_DESCRIPTION"
  "NODE_CHANNEL \<noteq> NODE_ITEM" "NODE_CHANNEL \<noteq> NODE_RELNOTES" "NODE_CHANNEL \<noteq> NODE_TITLE"
  "NODE_CHANNEL \<noteq> NODE_DESCRIPTION"
  by (simp_all add: name_defs)

lemma copy_attrs_loop_present:
  "distinct (map fst atts) \<Longrightarrow>
   copy_attrs_loop atts (a, lv) =
     (copy_present atts a, case map_of atts ATTR_VERSION of Some v \<Rightarrow> v | None \<Rightarrow> lv)"
proof (induction atts arbitrary: a lv)
  case Nil
  show ?case by (simp add: copy_present_def)
next
  case (Cons p rest)
  obtain n v where p: "p = (n, v)" by (cases p)
  from Cons.prems p have d: "distinct (map fst rest)" and n: "map_of rest n = None"
    by (auto simp: map_of_eq_None_iff)
  show ?case
    using n attr_names_distinct
    by (auto simp: p Cons.IH [OF d] copy_present_def split: option.splits)
qed

lemma newer_version_loop_go:
  "newer_version_loop lv atts go =
     (if \<exists>v. (ATTR_VERSION, v) \<in> set atts \<and> CompareVersions lv v < 0 then 1 else go)"
  by (induction lv atts go rule: newer_version_loop.induct) auto

lemma newer_version_loop_distinct:
  assumes "distinct (map fst atts)"
  shows "newer_version_loop lv atts 0 =
     (case map_of atts ATTR_VERSION of
        Some v \<Rightarrow> if CompareVersions v lv > 0 then 1 else 0
      | None \<Rightarrow> 0)"
proof (cases "map_of atts ATTR_VERSION")
  case None
  then have "\<And>v. (ATTR_VERSION, v) \<notin> set atts"
    by (metis map_of_eq_None_iff image_eqI fst_conv)
  with None show ?thesis by (simp add: newer_version_loop_go)
next
  case (Some v)
  have "(ATTR_VERSION, w) \<in> set atts \<longleftrightarrow> w = v" for w
    using assms Some by (metis map_of_eq_Some_iff option.inject)
  with Some show ?thesis
    using CompareVersions_anti [of v lv] by (simp add: newer_version_loop_go)
qed

lemma on_enclosure_distinct:
  assumes "distinct (map fst atts)"
  shows "on_enclosure atts (a, lv) =
     (if lv = [] \<or> (case map_of atts ATTR_VERSION of
                       Some v \<Rightarrow> CompareVersions v lv > 0 | None \<Rightarrow> False)
      then (copy_present atts a, case map_of atts ATTR_VERSION of Some v \<Rightarrow> v | None \<Rightarrow> lv)
      else (a, lv))"
  using assms
  by (simp add: on_enclosure_def newer_version_loop_distinct copy_attrs_loop_present
           split: option.splits)

lemma OnStartElement_enclosure:
  "in_item ctxt \<noteq> 0 \<Longrightarrow>
   OnStartElement NODE_ENCLOSURE atts (ctxt, lv) =
     (ctxt\<lparr>appcast := fst (on_enclosure atts (appcast ctxt, lv))\<rparr>,
      snd (on_enclosure atts (appcast ctxt, lv)))"
  using node_names_distinct
  by (simp add: OnStartElement_def Let_def split: prod.splits)

lemmas handler_defs = OnStartElement_def OnEndElement_def OnText_def on_enclosure_def
  new_context_def empty_appcast_def

text \<open>
  Claim C1. For every enclosure start event inside an item (the item counter is not 0):
  if \<^verbatim>\<open>last_version\<close> is empty the enclosure is accepted; otherwise it is accepted
  exactly when its version attribute compares greater than \<^verbatim>\<open>last_version\<close>. An accepted
  enclosure has each attribute that is present copied to its field, the version also to
  \<^verbatim>\<open>last_version\<close>; a rejected one leaves the context and \<^verbatim>\<open>last_version\<close> as they were.
\<close>

theorem enclosure_selection:
  assumes "distinct (map fst atts)" and "in_item ctxt \<noteq> 0"
  shows "OnStartElement NODE_ENCLOSURE atts (ctxt, last_version) =
     (if last_version = [] \<or>
         (case map_of atts ATTR_VERSION of
            Some v \<Rightarrow> CompareVersions v last_version > 0
          | None \<Rightarrow> False)
      then (ctxt\<lparr>appcast := copy_present atts (appcast ctxt)\<rparr>,
            case map_of atts ATTR_VERSION of Some v \<Rightarrow> v | None \<Rightarrow> last_version)
      else (ctxt, last_version))"
  using assms(2) by (simp add: OnStartElement_enclosure on_enclosure_distinct [OF assms(1)])

text \<open>An enclosure of version \<open>2.0\<close> after \<open>1.0\<close> was accepted.\<close>

theorem enclosure_selection_witness:
  "distinct (map fst [(ATTR_URL, ''u''), (ATTR_VERSION, ''2.0'')]) \<and>
   in_item ((new_context empty_appcast)\<lparr>in_item := 1\<rparr>) \<noteq> 0 \<and>
   CompareVersions ''2.0'' ''1.0'' > 0 \<and>
   OnStartElement NODE_ENCLOSURE [(ATTR_URL, ''u''), (ATTR_VERSION, ''2.0'')]
       ((new_context empty_appcast)\<lparr>in_item := 1\<rparr>, ''1.0'') =
     ((new_context empty_appcast)\<lparr>in_item := 1,
         appcast := empty_appcast\<lparr>DownloadURL := ''u'', Version := ''2.0''\<rparr>\<rparr>, ''2.0'')"
proof -
  have d: "distinct (map fst [(ATTR_URL, ''u''), (ATTR_VERSION, ''2.0'')])"
    by (simp add: name_defs)
  have i: "in_item ((new_context empty_appcast)\<lparr>in_item := 1\<rparr>) \<noteq> 0" by simp
  have c: "CompareVersions ''2.0'' ''1.0'' > 0" by (simp add: cv_eval)
  have m: "map_of [(ATTR_URL, ''u''), (ATTR_VERSION, ''2.0'')] ATTR_VERSION = Some ''2.0''"
    "map_of [(ATTR_URL, ''u''), (ATTR_VERSION, ''2.0'')] ATTR_URL = Some ''u''"
    "map_of [(ATTR_URL, ''u''), (ATTR_VERSION, ''2.0'')] ATTR_SHORTVERSION = None"
    by (simp_all add: name_defs)
  have "OnStartElement NODE_ENCLOSURE [(ATTR_URL, ''u''), (ATTR_VERSION, ''2.0'')]
       ((new_context empty_appcast)\<lparr>in_item := 1\<rparr>, ''1.0'') =
     ((new_context empty_appcast)\<lparr>in_item := 1,
         appcast := empty_appcast\<lparr>DownloadURL := ''u'', Version := ''2.0''\<rparr>\<rparr>, ''2.0'')"
    using enclosure_selection [OF d i, of "''1.0''"] c m
    by (simp add: copy_present_def new_context_def empty_appcast_def)
  with d i c show ?thesis by blast
qed

lemma run_events_append: "run_events (es @ fs) st = run_events fs (run_events es st)"
  by (induction es arbitrary: st) auto

lemma enclosure_in_item:
  "in_item (fst (OnStartElement NODE_ENCLOSURE atts st)) = in_item (fst st)"
  using node_names_distinct
  by (simp add: OnStartElement_def Let_def split: prod.splits)

lemma run_enclosures_snoc:
  "run_events (map (StartElement NODE_ENCLOSURE) encs @ [StartElement NODE_ENCLOSURE atts]) st =
     OnStartElement NODE_ENCLOSURE atts (run_events (map (StartElement NODE_ENCLOSURE) encs) st)"
  by (simp add: run_events_append)

lemma run_enclosures_in_item:
  "in_item (fst (run_events (map (StartElement NODE_ENCLOSURE) encs) st)) = in_item (fst st)"
  by (induction encs arbitrary: st) (simp_all add: enclosure_in_item)

text \<open>
  Claim C9. For every enclosure event inside an item whose attributes include no version:
  if \<^verbatim>\<open>last_version\<close> is not empty nothing changes; if it is empty the url and the short
  version string are copied where present and \<^verbatim>\<open>last_version\<close> stays empty. Hence, after
  any sequence of such enclosures from an empty \<^verbatim>\<open>last_version\<close>, it is still empty, and
  the download URL is the one of the last enclosure when that has a url.
\<close>

theorem enclosure_without_version:
  assumes "distinct (map fst atts)" and "map_of atts ATTR_VERSION = None"
    and "in_item ctxt \<noteq> 0"
    and "\<forall>e \<in> set encs. distinct (map fst e) \<and> map_of e ATTR_VERSION = None"
  shows
  "(last_version \<noteq> [] \<longrightarrow>
      OnStartElement NODE_ENCLOSURE atts (ctxt, last_version) = (ctxt, last_version)) \<and>
   OnStartElement NODE_ENCLOSURE atts (ctxt, []) =
     (ctxt\<lparr>appcast := (appcast ctxt)
        \<lparr>DownloadURL :=
           (case map_of atts ATTR_URL of Some v \<Rightarrow> v | None \<Rightarrow> DownloadURL (appcast ctxt)),
         ShortVersionString :=
           (case map_of atts ATTR_SHORTVERSION of Some v \<Rightarrow> v
            | None \<Rightarrow> ShortVersionString (appcast ctxt))\<rparr>\<rparr>, []) \<and>
   snd (run_events (map (StartElement NODE_ENCLOSURE) (encs @ [atts])) (ctxt, [])) = [] \<and>
   (\<forall>u. map_of atts ATTR_URL = Some u \<longrightarrow>
      DownloadURL (appcast (fst
        (run_events (map (StartElement NODE_ENCLOSURE) (encs @ [atts])) (ctxt, [])))) = u)"
proof -
  have one: "OnStartElement NODE_ENCLOSURE atts (c, lv) =
      (if lv = [] then (c\<lparr>appcast := copy_present atts (appcast c)\<rparr>, []) else (c, lv))"
    if "in_item c \<noteq> 0" for c lv
    using that assms(2)
    by (simp add: OnStartElement_enclosure on_enclosure_distinct [OF assms(1)])
  have seq: "snd (run_events (map (StartElement NODE_ENCLOSURE) encs) (ctxt, [])) = []"
    using assms(4)
  proof (induction encs rule: rev_induct)
    case (snoc e es)
    let ?st = "run_events (map (StartElement NODE_ENCLOSURE) es) (ctxt, [])"
    have lv: "snd ?st = []" using snoc by simp
    have it: "in_item (fst ?st) \<noteq> 0" using assms(3) by (simp add: run_enclosures_in_item)
    from snoc.prems have d: "distinct (map fst e)" and n: "map_of e ATTR_VERSION = None"
      by simp_all
    have "OnStartElement NODE_ENCLOSURE e (fst ?st, snd ?st) =
        (fst ?st\<lparr>appcast := copy_present e (appcast (fst ?st))\<rparr>, [])"
      using it lv n by (simp add: OnStartElement_enclosure on_enclosure_distinct [OF d])
    then show ?case by (simp add: run_enclosures_snoc)
  qed simp
  obtain c where st: "run_events (map (StartElement NODE_ENCLOSURE) encs) (ctxt, []) = (c, [])"
    using seq by (cases "run_events (map (StartElement NODE_ENCLOSURE) encs) (ctxt, [])") auto
  have it: "in_item c \<noteq> 0"
    using assms(3) run_enclosures_in_item [of encs "(ctxt, [])"] st by simp
  have last: "run_events (map (StartElement NODE_ENCLOSURE) (encs @ [atts])) (ctxt, []) =
      (c\<lparr>appcast := copy_present atts (appcast c)\<rparr>, [])"
    using one [OF it, of "[]"] st by (simp add: run_events_append)
  show ?thesis
    using one [OF assms(3)] assms(2) last
    by (simp add: copy_present_def)
qed

text \<open>Two enclosures without a version, with the urls \<open>a\<close> and \<open>b\<close>.\<close>

theorem enclosure_without_version_witness:
  "distinct (map fst [(ATTR_URL, ''b'')]) \<and>
   map_of [(ATTR_URL, ''b'')] ATTR_VERSION = None \<and>
   OnStartElement NODE_ENCLOSURE [(ATTR_URL, ''b'')]
       ((new_context empty_appcast)\<lparr>in_item := 1\<rparr>, ''1.0'') =
     ((new_context empty_appcast)\<lparr>in_item := 1\<rparr>, ''1.0'') \<and>
   snd (run_events (map (StartElement NODE_ENCLOSURE) [[(ATTR_URL, ''a'')], [(ATTR_URL, ''b'')]])
       ((new_context empty_appcast)\<lparr>in_item := 1\<rparr>, [])) = [] \<and>
   DownloadURL (appcast (fst
      (run_events (map (StartElement NODE_ENCLOSURE) [[(ATTR_URL, ''a'')], [(ATTR_URL, ''b'')]])
       ((new_context empty_appcast)\<lparr>in_item := 1\<rparr>, [])))) = ''b''"
proof -
  have d: "distinct (map fst [(ATTR_URL, ''b'')])" by simp
  have n: "map_of [(ATTR_URL, ''b'')] ATTR_VERSION = None" by (simp add: name_defs)
  have i: "in_item ((new_context empty_appcast)\<lparr>in_item := 1\<rparr>) \<noteq> 0" by simp
  have e: "\<forall>e \<in> set [[(ATTR_URL, ''a'')]]. distinct (map fst e) \<and> map_of e ATTR_VERSION = None"
    by (simp add: name_defs)
  from enclosure_without_version [OF d n i e, of "''1.0''"] d n
  show ?thesis by simp
qed

subsection \<open>Enclosures in a parse and over several parses\<close>

lemma CompareVersions_le_less_trans:
  assumes "CompareVersions a b \<le> 0" "CompareVersions b c < 0"
  shows "CompareVersions a c < 0"
proof (rule ccontr)
  assume "\<not> CompareVersions a c < 0"
  then have "CompareVersions c a \<le> 0" using CompareVersions_anti [of c a] by simp
  from CompareVersions_trans_le [OF this assms(1)] have "CompareVersions c b \<le> 0" .
  with assms(2) CompareVersions_anti [of c b] show False by simp
qed

lemma first_greatest_first:
  assumes "map_of e ATTR_VERSION = Some v" "v \<noteq> []"
  shows "first_greatest [e] 0 v"
  using assms by (auto simp: first_greatest_def CompareVersions_refl)

lemma first_greatest_accept:
  assumes b: "first_greatest es k lv"
    and v: "map_of e ATTR_VERSION = Some v" "v \<noteq> []" and g: "CompareVersions v lv > 0"
  shows "first_greatest (es @ [e]) (length es) v"
proof -
  have lt: "CompareVersions lv v < 0" using g CompareVersions_anti [of v lv] by simp
  have old: "CompareVersions w v < 0"
    if "j < length es" "map_of (es ! j) ATTR_VERSION = Some w" for j w
  proof -
    from b that have "CompareVersions w lv \<le> 0" by (auto simp: first_greatest_def)
    then show ?thesis using lt by (rule CompareVersions_le_less_trans)
  qed
  have all: "CompareVersions w v \<le> 0"
    if "j < length (es @ [e])" "map_of ((es @ [e]) ! j) ATTR_VERSION = Some w" for j w
  proof (cases "j < length es")
    case True
    with that old [of j w] show ?thesis by (simp add: nth_append)
  next
    case False
    with that have "j = length es" by simp
    with that v show ?thesis by (simp add: CompareVersions_refl)
  qed
  have before: "CompareVersions w v < 0"
    if "j < length es" "map_of ((es @ [e]) ! j) ATTR_VERSION = Some w" for j w
    using that old [of j w] by (simp add: nth_append)
  show ?thesis
    unfolding first_greatest_def
    using v all before by auto
qed

lemma first_greatest_reject:
  assumes b: "first_greatest es k lv"
    and v: "map_of e ATTR_VERSION = Some v" and g: "\<not> CompareVersions v lv > 0"
  shows "first_greatest (es @ [e]) k lv"
proof -
  from b have k: "k < length es" by (simp add: first_greatest_def)
  have all: "CompareVersions w lv \<le> 0"
    if "j < length (es @ [e])" "map_of ((es @ [e]) ! j) ATTR_VERSION = Some w" for j w
  proof (cases "j < length es")
    case True
    with that b show ?thesis by (auto simp: first_greatest_def nth_append)
  next
    case False
    with that have "j = length es" by simp
    with that v g show ?thesis by simp
  qed
  have before: "CompareVersions w lv < 0"
    if "j < k" "map_of ((es @ [e]) ! j) ATTR_VERSION = Some w" for j w
    using that b k by (auto simp: first_greatest_def nth_append)
  show ?thesis
    unfolding first_greatest_def
    using b k all before by (auto simp: first_greatest_def nth_append)
qed

lemma best_enclosure_new:
  assumes "first_greatest (es @ [e]) (length es) v"
  shows "best_enclosure (es @ [e]) (length es) (copy_present e a) v"
  using assms by (auto simp: best_enclosure_def first_greatest_def copy_present_def)

lemma best_enclosure_keep:
  assumes "best_enclosure es k a lv" "first_greatest (es @ [e]) k lv"
  shows "best_enclosure (es @ [e]) k a lv"
  using assms by (auto simp: best_enclosure_def first_greatest_def nth_append)

lemma best_enclosure_same:
  "best_enclosure es k a lv \<Longrightarrow> same_selection a' a \<Longrightarrow> best_enclosure es k a' lv"
  by (simp add: best_enclosure_def same_selection_def)

lemma parse_inv_same:
  assumes "parse_inv seen a0 lv0 a lv" "same_selection a' a"
  shows "parse_inv seen a0 lv0 a' lv"
proof -
  have "same_selection a' a0" if "same_selection a a0"
    using that assms(2) by (simp add: same_selection_def)
  moreover have "\<exists>k. best_enclosure seen k a' lv" if "\<exists>k. best_enclosure seen k a lv"
    using that assms(2) best_enclosure_same by blast
  ultimately show ?thesis using assms(1) unfolding parse_inv_def by blast
qed

lemma parse_inv_enclosure:
  assumes inv: "parse_inv seen a0 lv0 a lv" and ok: "enclosure_ok e"
  shows "parse_inv (seen @ [e]) a0 lv0 (fst (on_enclosure e (a, lv))) (snd (on_enclosure e (a, lv)))"
proof -
  from ok obtain v where d: "distinct (map fst e)"
    and v: "map_of e ATTR_VERSION = Some v" "v \<noteq> []" by (auto simp: enclosure_ok_def)
  have step: "on_enclosure e (a, lv) =
      (if lv = [] \<or> CompareVersions v lv > 0 then (copy_present e a, v) else (a, lv))"
    using v by (simp add: on_enclosure_distinct [OF d])
  from inv consider
      (A) "lv = lv0" "same_selection a a0" "greatest_so_far seen lv0"
    | (B) "lv \<noteq> lv0" "lv0 \<noteq> [] \<longrightarrow> CompareVersions lv0 lv < 0" "\<exists>k. best_enclosure seen k a lv"
    unfolding parse_inv_def by blast
  then show ?thesis
  proof cases
    case A
    show ?thesis
    proof (cases "lv = [] \<or> CompareVersions v lv > 0")
      case True
      have fg: "first_greatest (seen @ [e]) (length seen) v"
      proof (cases "lv = []")
        case True
        with A have "seen = []" by (auto simp: greatest_so_far_def first_greatest_def)
        with first_greatest_first [OF v] show ?thesis by simp
      next
        case False
        with A obtain k where "first_greatest seen k lv"
          by (auto simp: greatest_so_far_def)
        moreover from False True have "CompareVersions v lv > 0" by simp
        ultimately show ?thesis using v by (intro first_greatest_accept)
      qed
      have ne: "v \<noteq> lv0"
        using True A(1) v(2) CompareVersions_refl [of v] by auto
      have lt: "lv0 \<noteq> [] \<longrightarrow> CompareVersions lv0 v < 0"
        using True A(1) CompareVersions_anti [of v lv] by auto
      from best_enclosure_new [OF fg, of a] ne lt True show ?thesis
        unfolding parse_inv_def step by auto
    next
      case False
      with A obtain k where "first_greatest seen k lv"
        by (auto simp: greatest_so_far_def)
      from first_greatest_reject [OF this v(1)] False
      have "greatest_so_far (seen @ [e]) lv" by (auto simp: greatest_so_far_def)
      with A False show ?thesis
        unfolding parse_inv_def step by auto
    qed
  next
    case B
    then obtain k where b: "best_enclosure seen k a lv" by blast
    then have fg: "first_greatest seen k lv" and lvne: "lv \<noteq> []"
      by (auto simp: best_enclosure_def first_greatest_def)
    show ?thesis
    proof (cases "CompareVersions v lv > 0")
      case True
      from first_greatest_accept [OF fg v True]
      have best: "best_enclosure (seen @ [e]) (length seen) (copy_present e a) v"
        by (rule best_enclosure_new)
      have lvv: "CompareVersions lv v < 0" using True CompareVersions_anti [of v lv] by simp
      have lt: "lv0 \<noteq> [] \<longrightarrow> CompareVersions lv0 v < 0"
      proof
        assume "lv0 \<noteq> []"
        with B(2) have "CompareVersions lv0 lv \<le> 0" by simp
        then show "CompareVersions lv0 v < 0" using lvv by (rule CompareVersions_le_less_trans)
      qed
      have ne: "v \<noteq> lv0" using lt v(2) CompareVersions_refl [of v] by auto
      from best lt ne True show ?thesis
        unfolding parse_inv_def step by auto
    next
      case False
      from best_enclosure_keep [OF b first_greatest_reject [OF fg v(1) False]]
      show ?thesis
        using B False lvne unfolding parse_inv_def step by auto
    qed
  qed
qed

lemma other_event_keeps:
  assumes "\<forall>atts. e = StartElement NODE_ENCLOSURE atts \<longrightarrow> in_item (fst st) = 0"
  shows "snd (handle_event e st) = snd st \<and>
         same_selection (appcast (fst (handle_event e st))) (appcast (fst st))"
proof (cases e)
  case (StartElement name atts)
  with assms show ?thesis
    by (cases "name = NODE_ENCLOSURE")
       (auto simp: OnStartElement_def Let_def same_selection_def split: prod.splits)
next
  case (EndElement name)
  then show ?thesis by (auto simp: OnEndElement_def Let_def same_selection_def)
next
  case (CharacterData s)
  then show ?thesis by (auto simp: OnText_def Let_def same_selection_def)
qed

lemma enclosures_seen_snoc:
  "enclosures_seen (es @ [e]) st =
     enclosures_seen es st @
     (case e of
        StartElement name atts \<Rightarrow>
          if name = NODE_ENCLOSURE \<and> in_item (fst (run_events es st)) \<noteq> 0 then [atts] else []
      | _ \<Rightarrow> [])"
  by (induction es arbitrary: st) (simp_all split: xml_event.splits)

lemma run_parse_inv:
  assumes "greatest_so_far hist lv0"
  shows "\<forall>e \<in> set (enclosures_seen es (c0, lv0)). enclosure_ok e \<Longrightarrow>
    parse_inv (hist @ enclosures_seen es (c0, lv0)) (appcast c0) lv0
      (appcast (fst (run_events es (c0, lv0)))) (snd (run_events es (c0, lv0)))"
proof (induction es rule: rev_induct)
  case Nil
  with assms show ?case by (simp add: parse_inv_def same_selection_def)
next
  case (snoc e es)
  obtain c lv where st: "run_events es (c0, lv0) = (c, lv)"
    by (cases "run_events es (c0, lv0)")
  have "\<forall>e \<in> set (enclosures_seen es (c0, lv0)). enclosure_ok e"
    using snoc.prems by (simp add: enclosures_seen_snoc)
  from snoc.IH [OF this] st
  have inv: "parse_inv (hist @ enclosures_seen es (c0, lv0)) (appcast c0) lv0 (appcast c) lv"
    by simp
  show ?case
  proof (cases "\<exists>atts. e = StartElement NODE_ENCLOSURE atts \<and> in_item c \<noteq> 0")
    case True
    then obtain atts where e: "e = StartElement NODE_ENCLOSURE atts" and it: "in_item c \<noteq> 0"
      by blast
    have ok: "enclosure_ok atts"
      using snoc.prems e it st by (simp add: enclosures_seen_snoc)
    have "run_events (es @ [e]) (c0, lv0) =
        (c\<lparr>appcast := fst (on_enclosure atts (appcast c, lv))\<rparr>,
         snd (on_enclosure atts (appcast c, lv)))"
      using e st OnStartElement_enclosure [OF it] by (simp add: run_events_append)
    moreover have "enclosures_seen (es @ [e]) (c0, lv0) = enclosures_seen es (c0, lv0) @ [atts]"
      using e it st by (simp add: enclosures_seen_snoc)
    ultimately show ?thesis
      using parse_inv_enclosure [OF inv ok] by simp
  next
    case False
    then have h: "\<forall>atts. e = StartElement NODE_ENCLOSURE atts \<longrightarrow> in_item (fst (c, lv)) = 0"
      by auto
    have seen: "enclosures_seen (es @ [e]) (c0, lv0) = enclosures_seen es (c0, lv0)"
      using False st by (auto simp: enclosures_seen_snoc split: xml_event.splits)
    have run: "run_events (es @ [e]) (c0, lv0) = handle_event e (c, lv)"
      using st by (simp add: run_events_append)
    from other_event_keeps [OF h]
    have "snd (handle_event e (c, lv)) = lv"
      and "same_selection (appcast (fst (handle_event e (c, lv)))) (appcast c)" by simp_all
    with parse_inv_same [OF inv] seen run show ?thesis by simp
  qed
qed

lemma Load_state:
  "parser_created eng \<Longrightarrow>
   snd (Load eng xml (a, lv)) =
     (appcast (fst (run_events (fst (XML_Parse eng xml True)) (new_context a, lv))),
      snd (run_events (fst (XML_Parse eng xml True)) (new_context a, lv)))"
  by (simp add: Load_def Let_def split: prod.splits)

lemma Load_parse_inv:
  assumes "parser_created eng" "greatest_so_far hist lv0"
    and "\<forall>e \<in> set (enclosures_seen (fst (XML_Parse eng xml True)) (new_context a, lv0)).
           enclosure_ok e"
  shows "parse_inv (hist @ enclosures_seen (fst (XML_Parse eng xml True)) (new_context a, lv0))
           a lv0 (fst (snd (Load eng xml (a, lv0)))) (snd (snd (Load eng xml (a, lv0))))"
  using run_parse_inv [OF assms(2,3)]
  by (simp add: Load_state [OF assms(1)] new_context_def)

lemma last_version_after_snoc:
  "last_version_after eng (calls @ [(xml, a)]) lv =
     snd (snd (Load eng xml (a, last_version_after eng calls lv)))"
  by (induction eng calls lv rule: last_version_after.induct) simp_all

lemma seen_all_snoc:
  "seen_all eng (calls @ [(xml, a)]) lv =
     seen_all eng calls lv @
     enclosures_seen (fst (XML_Parse eng xml True)) (new_context a, last_version_after eng calls lv)"
  by (induction eng calls lv rule: seen_all.induct) simp_all

lemma parse_inv_greatest: "parse_inv seen a0 lv0 a lv \<Longrightarrow> greatest_so_far seen lv"
  by (auto simp: parse_inv_def greatest_so_far_def best_enclosure_def)

lemma calls_greatest:
  assumes "parser_created eng"
  shows "\<forall>e \<in> set (seen_all eng calls []). enclosure_ok e \<Longrightarrow>
    greatest_so_far (seen_all eng calls []) (last_version_after eng calls [])"
proof (induction calls rule: rev_induct)
  case Nil
  show ?case by (simp add: greatest_so_far_def)
next
  case (snoc call calls)
  obtain xml a where call: "call = (xml, a)" by (cases call)
  from snoc.prems have p: "\<forall>e \<in> set (seen_all eng calls []). enclosure_ok e"
    and h: "\<forall>e \<in> set (enclosures_seen (fst (XML_Parse eng xml True))
                (new_context a, last_version_after eng calls [])). enclosure_ok e"
    by (simp_all add: call seen_all_snoc)
  from Load_parse_inv [OF assms snoc.IH [OF p] h] show ?case
    by (simp add: call seen_all_snoc last_version_after_snoc parse_inv_greatest)
qed

lemma last_version_increases:
  assumes "\<forall>name atts. e = StartElement name atts \<longrightarrow> distinct (map fst atts)" "lv \<noteq> []"
    and "snd (handle_event e (c, lv)) \<noteq> lv"
  shows "CompareVersions lv (snd (handle_event e (c, lv))) < 0"
proof (cases "\<exists>atts. e = StartElement NODE_ENCLOSURE atts \<and> in_item c \<noteq> 0")
  case False
  then have "\<forall>atts. e = StartElement NODE_ENCLOSURE atts \<longrightarrow> in_item (fst (c, lv)) = 0" by auto
  from other_event_keeps [OF this] assms(3) show ?thesis by simp
next
  case True
  then obtain atts where e: "e = StartElement NODE_ENCLOSURE atts" and it: "in_item c \<noteq> 0"
    by blast
  from assms(1) e have d: "distinct (map fst atts)" by simp
  show ?thesis
  proof (cases "map_of atts ATTR_VERSION")
    case None
    with it assms(2,3) e show ?thesis
      by (simp add: OnStartElement_enclosure on_enclosure_distinct [OF d])
  next
    case (Some v)
    with it assms(2,3) e have "CompareVersions v lv > 0"
      and "snd (handle_event e (c, lv)) = v"
      by (auto simp: OnStartElement_enclosure on_enclosure_distinct [OF d] split: if_splits)
    then show ?thesis using CompareVersions_anti [of v lv] by simp
  qed
qed

text \<open>
  Claim C2, as stated: when every enclosure has a version attribute, then after the
  events of one parse or of several parses, from the empty state, the version of the
  descriptor is the greatest version seen so far, and the download URL and the short
  version string are the ones of the first enclosure with that version. Three runs of
  the handlers show otherwise. An enclosure with the empty version leaves
  \<^verbatim>\<open>last_version\<close> empty, so the next one is accepted whatever its version: a feed with
  an empty version and then the version \<open>beta\<close> ends with \<open>beta\<close> and the url \<open>b\<close>, though the
  empty version compares greater than \<open>beta\<close>. An accepted enclosure without a url leaves
  the url of an earlier one in place: a feed with the version \<open>1.0\<close> and the url \<open>a\<close>, then
  the version \<open>2.0\<close> and no url, ends with the version \<open>2.0\<close> and the url \<open>a\<close>. And over two
  parses: the first, of a feed with the version \<open>2.0\<close>, leaves \<open>2.0\<close> in \<^verbatim>\<open>last_version\<close>;
  the second, on a new descriptor, of a feed with the version \<open>1.5\<close>, leaves that
  descriptor empty, though the greatest version seen so far is \<open>2.0\<close>.
\<close>

theorem enclosures_highest_version_counterexample:
  "run_events
      [StartElement NODE_CHANNEL [], StartElement NODE_ITEM [],
       StartElement NODE_ENCLOSURE [(ATTR_VERSION, ''''), (ATTR_URL, ''a'')],
       EndElement NODE_ITEM, StartElement NODE_ITEM [],
       StartElement NODE_ENCLOSURE [(ATTR_VERSION, ''beta''), (ATTR_URL, ''b'')],
       EndElement NODE_ITEM, EndElement NODE_CHANNEL]
      (new_context empty_appcast, []) =
     ((new_context (empty_appcast\<lparr>Version := ''beta'', DownloadURL := ''b''\<rparr>))\<lparr>in_item := 2\<rparr>,
      ''beta'') \<and>
   CompareVersions '''' ''beta'' > 0 \<and>
   run_events
      [StartElement NODE_CHANNEL [], StartElement NODE_ITEM [],
       StartElement NODE_ENCLOSURE [(ATTR_VERSION, ''1.0''), (ATTR_URL, ''a'')],
       EndElement NODE_ITEM, StartElement NODE_ITEM [],
       StartElement NODE_ENCLOSURE [(ATTR_VERSION, ''2.0'')],
       EndElement NODE_ITEM, EndElement NODE_CHANNEL]
      (new_context empty_appcast, []) =
     ((new_context (empty_appcast\<lparr>Version := ''2.0'', DownloadURL := ''a''\<rparr>))\<lparr>in_item := 2\<rparr>,
      ''2.0'') \<and>
   CompareVersions ''2.0'' ''1.0'' > 0 \<and>
   run_events
      [StartElement NODE_CHANNEL [], StartElement NODE_ITEM [],
       StartElement NODE_ENCLOSURE [(ATTR_VERSION, ''2.0''), (ATTR_URL, ''a'')],
       EndElement NODE_ITEM, EndElement NODE_CHANNEL]
      (new_context empty_appcast, []) =
     ((new_context (empty_appcast\<lparr>Version := ''2.0'', DownloadURL := ''a''\<rparr>))\<lparr>in_item := 1\<rparr>,
      ''2.0'') \<and>
   run_events
      [StartElement NODE_CHANNEL [], StartElement NODE_ITEM [],
       StartElement NODE_ENCLOSURE [(ATTR_VERSION, ''1.5''), (ATTR_URL, ''c'')],
       EndElement NODE_ITEM, EndElement NODE_CHANNEL]
      (new_context empty_appcast, ''2.0'') =
     ((new_context empty_appcast)\<lparr>in_item := 1\<rparr>, ''2.0'') \<and>
   CompareVersions ''2.0'' ''1.5'' > 0"
  by (simp add: handler_defs name_defs cv_eval)

text \<open>
  Claim C2, amended. Take any calls of \<^verbatim>\<open>Load\<close> one after the other, starting from an
  empty \<^verbatim>\<open>last_version\<close>, each on a descriptor of its own or not, such that every
  enclosure the handlers look at (inside an item) has a version attribute that is not
  empty. After the last call: if any enclosure has been looked at, \<^verbatim>\<open>last_version\<close> is the
  version of an enclosure \<open>k\<close> among all those looked at in all the calls, none of them has a
  greater version, and every one before \<open>k\<close> has a smaller one. If the last call has changed
  \<^verbatim>\<open>last_version\<close>, its descriptor has that version, and the download URL and the short
  version string of \<open>k\<close> where \<open>k\<close> has these attributes; this is so for a single call that
  looks at an enclosure. If the last call has not changed \<^verbatim>\<open>last_version\<close>, the three
  fields of its descriptor are what they were before the call. A call that changes a
  \<^verbatim>\<open>last_version\<close> that is not empty makes it greater, and so does every single event.
\<close>

theorem enclosures_highest_version:
  assumes "parser_created eng"
    and "seen = seen_all eng (calls @ [(xml, a)]) []"
    and "\<forall>e \<in> set seen. distinct (map fst e) \<and> (\<exists>v. map_of e ATTR_VERSION = Some v \<and> v \<noteq> [])"
    and "lv0 = last_version_after eng calls []"
    and "snd (Load eng xml (a, lv0)) = (a', lv')"
  shows
  "(seen \<noteq> [] \<longrightarrow>
      (\<exists>k < length seen.
         map_of (seen ! k) ATTR_VERSION = Some lv' \<and>
         (\<forall>j < length seen. \<forall>v. map_of (seen ! j) ATTR_VERSION = Some v \<longrightarrow>
            CompareVersions v lv' \<le> 0) \<and>
         (\<forall>j < k. \<forall>v. map_of (seen ! j) ATTR_VERSION = Some v \<longrightarrow>
            CompareVersions v lv' < 0) \<and>
         (lv' \<noteq> lv0 \<longrightarrow>
            Version a' = lv' \<and>
            (\<forall>u. map_of (seen ! k) ATTR_URL = Some u \<longrightarrow> DownloadURL a' = u) \<and>
            (\<forall>s. map_of (seen ! k) ATTR_SHORTVERSION = Some s \<longrightarrow>
               ShortVersionString a' = s)))) \<and>
   (calls = [] \<and> seen \<noteq> [] \<longrightarrow> lv' \<noteq> lv0) \<and>
   (lv' = lv0 \<longrightarrow>
      Version a' = Version a \<and> DownloadURL a' = DownloadURL a \<and>
      ShortVersionString a' = ShortVersionString a) \<and>
   (lv0 \<noteq> [] \<and> lv' \<noteq> lv0 \<longrightarrow> CompareVersions lv0 lv' < 0) \<and>
   (\<forall>e c lv.
      (\<forall>name atts. e = StartElement name atts \<longrightarrow> distinct (map fst atts)) \<and> lv \<noteq> [] \<and>
      snd (handle_event e (c, lv)) \<noteq> lv \<longrightarrow>
      CompareVersions lv (snd (handle_event e (c, lv))) < 0)"
proof -
  let ?here = "enclosures_seen (fst (XML_Parse eng xml True)) (new_context a, lv0)"
  have seen: "seen = seen_all eng calls [] @ ?here"
    using assms(2,4) by (simp add: seen_all_snoc)
  have ok: "\<forall>e \<in> set seen. enclosure_ok e" using assms(3) unfolding enclosure_ok_def .
  have hist: "greatest_so_far (seen_all eng calls []) lv0"
    unfolding assms(4) using ok seen by (intro calls_greatest [OF assms(1)]) simp
  have "parse_inv (seen_all eng calls [] @ ?here) a lv0
          (fst (snd (Load eng xml (a, lv0)))) (snd (snd (Load eng xml (a, lv0))))"
    using ok seen by (intro Load_parse_inv [OF assms(1) hist]) simp
  then have inv: "parse_inv seen a lv0 a' lv'" using seen assms(5) by simp
  then consider
      (A) "lv' = lv0" "same_selection a' a" "greatest_so_far seen lv0"
    | (B) "lv' \<noteq> lv0" "lv0 \<noteq> [] \<longrightarrow> CompareVersions lv0 lv' < 0" "\<exists>k. best_enclosure seen k a' lv'"
    unfolding parse_inv_def by blast
  then have main: "(seen \<noteq> [] \<longrightarrow>
      (\<exists>k < length seen.
         map_of (seen ! k) ATTR_VERSION = Some lv' \<and>
         (\<forall>j < length seen. \<forall>v. map_of (seen ! j) ATTR_VERSION = Some v \<longrightarrow>
            CompareVersions v lv' \<le> 0) \<and>
         (\<forall>j < k. \<forall>v. map_of (seen ! j) ATTR_VERSION = Some v \<longrightarrow>
            CompareVersions v lv' < 0) \<and>
         (lv' \<noteq> lv0 \<longrightarrow>
            Version a' = lv' \<and>
            (\<forall>u. map_of (seen ! k) ATTR_URL = Some u \<longrightarrow> DownloadURL a' = u) \<and>
            (\<forall>s. map_of (seen ! k) ATTR_SHORTVERSION = Some s \<longrightarrow>
               ShortVersionString a' = s)))) \<and>
     (lv' = lv0 \<longrightarrow> same_selection a' a) \<and>
     (lv0 \<noteq> [] \<and> lv' \<noteq> lv0 \<longrightarrow> CompareVersions lv0 lv' < 0)"
  proof cases
    case A
    have "\<exists>k < length seen.
         map_of (seen ! k) ATTR_VERSION = Some lv' \<and>
         (\<forall>j < length seen. \<forall>v. map_of (seen ! j) ATTR_VERSION = Some v \<longrightarrow>
            CompareVersions v lv' \<le> 0) \<and>
         (\<forall>j < k. \<forall>v. map_of (seen ! j) ATTR_VERSION = Some v \<longrightarrow>
            CompareVersions v lv' < 0)" if "seen \<noteq> []"
    proof -
      from A(3) that obtain k where "first_greatest seen k lv0"
        by (auto simp: greatest_so_far_def)
      then show ?thesis unfolding first_greatest_def A(1) by (intro exI [of _ k]) simp
    qed
    with A show ?thesis by auto
  next
    case B
    then obtain k where "best_enclosure seen k a' lv'" by blast
    then have "\<exists>k < length seen.
         map_of (seen ! k) ATTR_VERSION = Some lv' \<and>
         (\<forall>j < length seen. \<forall>v. map_of (seen ! j) ATTR_VERSION = Some v \<longrightarrow>
            CompareVersions v lv' \<le> 0) \<and>
         (\<forall>j < k. \<forall>v. map_of (seen ! j) ATTR_VERSION = Some v \<longrightarrow>
            CompareVersions v lv' < 0) \<and>
         Version a' = lv' \<and>
         (\<forall>u. map_of (seen ! k) ATTR_URL = Some u \<longrightarrow> DownloadURL a' = u) \<and>
         (\<forall>s. map_of (seen ! k) ATTR_SHORTVERSION = Some s \<longrightarrow> ShortVersionString a' = s)"
      unfolding best_enclosure_def first_greatest_def by (intro exI [of _ k]) simp
    with B show ?thesis by auto
  qed
  have first: "lv' \<noteq> lv0" if "calls = []" "seen \<noteq> []"
  proof -
    from that(1) assms(4) have "lv0 = []" by simp
    moreover from main that(2) ok obtain k where "k < length seen"
      "map_of (seen ! k) ATTR_VERSION = Some lv'" by blast
    then have "lv' \<noteq> []" using assms(3) by (metis nth_mem option.inject)
    ultimately show ?thesis by simp
  qed
  have mono: "\<forall>e c lv.
      (\<forall>name atts. e = StartElement name atts \<longrightarrow> distinct (map fst atts)) \<and> lv \<noteq> [] \<and>
      snd (handle_event e (c, lv)) \<noteq> lv \<longrightarrow>
      CompareVersions lv (snd (handle_event e (c, lv))) < 0"
    using last_version_increases by blast
  from main first mono show ?thesis unfolding same_selection_def by blast
qed

text \<open>
  Two calls on new descriptors: \<open>feed1\<close> leaves the version \<open>1.0\<close>; \<open>feed2\<close>, with a title,
  the version \<open>2.0\<close> and then \<open>1.5\<close> in a second item, changes it to \<open>2.0\<close>, which is greater.
\<close>

theorem enclosures_highest_version_witness:
  "parser_created two_feeds \<and>
   last_version_after two_feeds [(''feed1'', empty_appcast)] [] = ''1.0'' \<and>
   seen_all two_feeds [(''feed1'', empty_appcast), (''feed2'', empty_appcast)] [] =
     [[(ATTR_URL, ''a''), (ATTR_VERSION, ''1.0'')],
      [(ATTR_URL, ''b''), (ATTR_VERSION, ''2.0'')],
      [(ATTR_URL, ''c''), (ATTR_VERSION, ''1.5'')]] \<and>
   snd (Load two_feeds ''feed2'' (empty_appcast, ''1.0'')) =
     (empty_appcast\<lparr>Version := ''2.0'', DownloadURL := ''b'', Title := ''T''\<rparr>, ''2.0'') \<and>
   CompareVersions ''1.0'' ''2.0'' < 0 \<and>
   (\<exists>k < 3. map_of ([[(ATTR_URL, ''a''), (ATTR_VERSION, ''1.0'')],
                     [(ATTR_URL, ''b''), (ATTR_VERSION, ''2.0'')],
                     [(ATTR_URL, ''c''), (ATTR_VERSION, ''1.5'')]] ! k) ATTR_VERSION = Some ''2.0'')"
proof -
  let ?ev1 = "[StartElement NODE_CHANNEL [], StartElement NODE_ITEM [],
            StartElement NODE_ENCLOSURE [(ATTR_URL, ''a''), (ATTR_VERSION, ''1.0'')],
            EndElement NODE_ITEM, EndElement NODE_CHANNEL]"
  let ?ev2 = "[StartElement NODE_CHANNEL [], StartElement NODE_ITEM [],
            StartElement NODE_TITLE [], CharacterData ''T'', EndElement NODE_TITLE,
            StartElement NODE_ENCLOSURE [(ATTR_URL, ''b''), (ATTR_VERSION, ''2.0'')],
            EndElement NODE_ITEM, StartElement NODE_ITEM [],
            StartElement NODE_ENCLOSURE [(ATTR_URL, ''c''), (ATTR_VERSION, ''1.5'')],
            EndElement NODE_ITEM, EndElement NODE_CHANNEL]"
  let ?seen = "[[(ATTR_URL, ''a''), (ATTR_VERSION, ''1.0'')],
      [(ATTR_URL, ''b''), (ATTR_VERSION, ''2.0'')],
      [(ATTR_URL, ''c''), (ATTR_VERSION, ''1.5'')]]"
  let ?a' = "empty_appcast\<lparr>Version := ''2.0'', DownloadURL := ''b'', Title := ''T''\<rparr>"
  have p: "parser_created two_feeds" by (simp add: two_feeds_def)
  have x1: "fst (XML_Parse two_feeds ''feed1'' True) = ?ev1"
    and x2: "fst (XML_Parse two_feeds ''feed2'' True) = ?ev2"
    by (simp_all add: two_feeds_def)
  have r1: "run_events ?ev1 (new_context empty_appcast, []) =
      (\<lparr>appcast = empty_appcast\<lparr>Version := ''1.0'', DownloadURL := ''a''\<rparr>, in_channel = 0,
        in_item = 1, in_relnotes = 0, in_title = 0, in_description = 0\<rparr>, ''1.0'')"
    by (simp add: handler_defs name_defs)
  have r2: "run_events ?ev2 (new_context empty_appcast, ''1.0'') =
      (\<lparr>appcast = ?a', in_channel = 0, in_item = 2, in_relnotes = 0, in_title = 0,
        in_description = 0\<rparr>, ''2.0'')"
    by (simp add: handler_defs name_defs cv_eval)
  have l1: "snd (Load two_feeds ''feed1'' (empty_appcast, [])) =
      (empty_appcast\<lparr>Version := ''1.0'', DownloadURL := ''a''\<rparr>, ''1.0'')"
    unfolding Load_state [OF p] x1 r1 by simp
  have l2: "snd (Load two_feeds ''feed2'' (empty_appcast, ''1.0'')) = (?a', ''2.0'')"
    unfolding Load_state [OF p] x2 r2 by simp
  have lv0: "''1.0'' = last_version_after two_feeds [(''feed1'', empty_appcast)] []"
    by (simp add: l1)
  have s1: "enclosures_seen ?ev1 (new_context empty_appcast, []) =
      [[(ATTR_URL, ''a''), (ATTR_VERSION, ''1.0'')]]"
    by (simp add: handler_defs name_defs)
  have s2: "enclosures_seen ?ev2 (new_context empty_appcast, ''1.0'') =
      [[(ATTR_URL, ''b''), (ATTR_VERSION, ''2.0'')], [(ATTR_URL, ''c''), (ATTR_VERSION, ''1.5'')]]"
    by (simp add: handler_defs name_defs cv_eval)
  have "seen_all two_feeds [(''feed1'', empty_appcast), (''feed2'', empty_appcast)] [] =
      enclosures_seen ?ev1 (new_context empty_appcast, []) @
      enclosures_seen ?ev2 (new_context empty_appcast, ''1.0'')"
    unfolding seen_all.simps l1 x1 x2 by simp
  then have seen: "?seen = seen_all two_feeds ([(''feed1'', empty_appcast)] @ [(''feed2'', empty_appcast)]) []"
    unfolding s1 s2 by simp
  have ok: "\<forall>e \<in> set ?seen. distinct (map fst e) \<and> (\<exists>v. map_of e ATTR_VERSION = Some v \<and> v \<noteq> [])"
    by (simp add: name_defs)
  note t = enclosures_highest_version [OF p seen ok lv0 l2]
  have ne: "?seen \<noteq> []" and d: "''1.0'' \<noteq> [] \<and> ''2.0'' \<noteq> ''1.0''" by simp_all
  from t d have c: "CompareVersions ''1.0'' ''2.0'' < 0" by blast
  from t ne obtain k where kk: "k < length ?seen"
    and mm: "map_of (?seen ! k) ATTR_VERSION = Some ''2.0''"
    by blast
  from kk have "k < 3" by simp
  with mm have k: "\<exists>k < 3. map_of (?seen ! k) ATTR_VERSION = Some ''2.0''" by blast
  from p lv0 seen l2 c k show ?thesis by simp
qed

subsection \<open>The counters\<close>

lemma in_item_mono: "in_item (fst st) \<le> in_item (fst (handle_event e st))"
  by (cases e) (auto simp: OnStartElement_def OnEndElement_def OnText_def Let_def split: prod.splits)

lemma in_channel_step:
  "in_channel (fst (handle_event e st)) =
     in_channel (fst st) + int (starts NODE_CHANNEL [e]) - int (ends NODE_CHANNEL [e])"
  using node_names_distinct
  by (cases e) (auto simp: OnStartElement_def OnEndElement_def OnText_def Let_def split: prod.splits)

lemma starts_Cons: "starts name (e # es) = starts name [e] + starts name es"
  by (cases e) auto

lemma ends_Cons: "ends name (e # es) = ends name [e] + ends name es"
  by (cases e) auto

lemma in_item_run: "in_item (fst st) \<le> in_item (fst (run_events es st))"
proof (induction es arbitrary: st)
  case (Cons e es)
  have "in_item (fst st) \<le> in_item (fst (handle_event e st))" by (rule in_item_mono)
  also have "\<dots> \<le> in_item (fst (run_events es (handle_event e st)))" by (rule Cons.IH)
  finally show ?case by simp
qed simp

lemma in_channel_run:
  "in_channel (fst (run_events es st)) =
     in_channel (fst st) + int (starts NODE_CHANNEL es) - int (ends NODE_CHANNEL es)"
proof (induction es arbitrary: st)
  case (Cons e es)
  show ?case
    using Cons.IH [of "handle_event e st"] in_channel_step [of e st]
      starts_Cons [of NODE_CHANNEL e es] ends_Cons [of NODE_CHANNEL e es]
    by simp
qed simp

text \<open>
  Claim C6 says that text is appended only while the named element, an item and a
  channel are open, the item counter being decremented at the end of an item. The handler
  of end events leaves the item counter as it is at the end of an item. So for the events of
  the document
  \<^verbatim>\<open><channel><item></item><title>X</title></channel>\<close>
  the item counter is still 1 after the item has ended, the title that follows it in the
  channel is counted, and its text becomes the title of the descriptor.
\<close>

theorem text_after_item_end:
  "run_events
     [StartElement NODE_CHANNEL [], StartElement NODE_ITEM [], EndElement NODE_ITEM,
      StartElement NODE_TITLE [], CharacterData ''X'', EndElement NODE_TITLE,
      EndElement NODE_CHANNEL]
     (new_context empty_appcast, []) =
   ((new_context (empty_appcast\<lparr>Title := ''X''\<rparr>))\<lparr>in_item := 1\<rparr>, [])"
  by (simp add: handler_defs name_defs)

text \<open>
  Claim C7, as stated: no counter is ever negative, decrements being clamped at 0.
  The end of a channel decrements the channel counter unconditionally, and the ends of the
  three text elements decrement their counters whenever the item counter is not 0: an end
  of a channel as the only event gives a channel counter of -1, and the end of a title
  inside an item with no start before it gives a title counter of -1.
\<close>

theorem counters_negative_counterexample:
  "in_channel (fst (run_events [EndElement NODE_CHANNEL] (new_context empty_appcast, []))) = - 1 \<and>
   in_title (fst (run_events
      [StartElement NODE_CHANNEL [], StartElement NODE_ITEM [], EndElement NODE_TITLE]
      (new_context empty_appcast, []))) = - 1"
  by (simp add: handler_defs name_defs)

text \<open>
  Claim C7, amended. After every sequence of events, from the context a parse starts
  with: the item counter is not negative, and the channel
  counter is the number of starts of a channel less the number of ends of a channel (so it
  is not negative as long as no end of a channel comes without its start). This holds for
  every sequence, hence after every event of one.
\<close>

theorem item_and_channel_counters:
  "0 \<le> in_item (fst (run_events events (new_context a, last_version))) \<and>
   in_channel (fst (run_events events (new_context a, last_version))) =
     int (starts NODE_CHANNEL events) - int (ends NODE_CHANNEL events)"
  using in_item_run [of "(new_context a, last_version)" events]
    in_channel_run [of events "(new_context a, last_version)"]
  by (simp add: new_context_def)

subsection \<open>Appcast::Load\<close>

text \<open>
  Claim C8. \<^verbatim>\<open>Appcast::Load\<close> throws exactly when the parser cannot be created or
  \<^verbatim>\<open>XML_Parse\<close>, called with the whole document as its final bytes, reports an error. In
  the first case the message is \<^verbatim>\<open>Failed to create XML parser.\<close>; in the second it is
  \<^verbatim>\<open>XML parser error: \<close> followed by the description the engine has of the error. And
  with an engine that reports an error on final bytes that are not a well-formed
  document, \<^verbatim>\<open>Load\<close> on such bytes, a truncated document among them, always throws, with
  that message when the parser was created, and never returns normally.
\<close>

theorem Load_fails_iff:
  "(isl (fst (Load eng xml st)) \<longleftrightarrow>
      \<not> parser_created eng \<or> snd (XML_Parse eng xml True) = XML_STATUS_ERROR) \<and>
   (\<not> parser_created eng \<longrightarrow>
      fst (Load eng xml st) = Inl (runtime_error ''Failed to create XML parser.'')) \<and>
   (parser_created eng \<and> snd (XML_Parse eng xml True) = XML_STATUS_ERROR \<longrightarrow>
      fst (Load eng xml st) =
        Inl (runtime_error (''XML parser error: '' @ XML_ErrorString eng xml))) \<and>
   (reports_malformed well_formed eng \<and> \<not> well_formed xml \<longrightarrow>
      isl (fst (Load eng xml st)) \<and>
      (parser_created eng \<longrightarrow>
         fst (Load eng xml st) =
           Inl (runtime_error (''XML parser error: '' @ XML_ErrorString eng xml))))"
proof -
  have err: "snd (XML_Parse eng xml True) = XML_STATUS_ERROR"
    if "reports_malformed well_formed eng" "\<not> well_formed xml"
    using that by (simp add: reports_malformed_def)
  have branches: "(isl (fst (Load eng xml st)) \<longleftrightarrow>
      \<not> parser_created eng \<or> snd (XML_Parse eng xml True) = XML_STATUS_ERROR) \<and>
   (\<not> parser_created eng \<longrightarrow>
      fst (Load eng xml st) = Inl (runtime_error ''Failed to create XML parser.'')) \<and>
   (parser_created eng \<and> snd (XML_Parse eng xml True) = XML_STATUS_ERROR \<longrightarrow>
      fst (Load eng xml st) =
        Inl (runtime_error (''XML parser error: '' @ XML_ErrorString eng xml)))"
    by (simp add: Load_def Let_def split: prod.splits)
  with err show ?thesis by blast
qed

text \<open>
  The engine for tags and text: a document cut off inside an end tag and one with a
  wrong end tag are not well-formed and make \<^verbatim>\<open>Load\<close> throw with the engine's
  description; fed as bytes that are not final, the document cut off is no error. The
  complete document is well-formed and \<^verbatim>\<open>Load\<close> returns.
\<close>

theorem Load_fails_iff_witness:
  "reports_malformed simple_well_formed simple_engine \<and>
   \<not> simple_well_formed ''<channel><item><title>X</ti'' \<and>
   snd (XML_Parse simple_engine ''<channel><item><title>X</ti'' False) = XML_STATUS_OK \<and>
   fst (Load simple_engine ''<channel><item><title>X</ti'' (empty_appcast, [])) =
     Inl (runtime_error ''XML parser error: unclosed token'') \<and>
   \<not> simple_well_formed ''<channel><item></channel>'' \<and>
   fst (Load simple_engine ''<channel><item></channel>'' (empty_appcast, [])) =
     Inl (runtime_error ''XML parser error: mismatched tag'') \<and>
   simple_well_formed ''<channel><item><title>X</title></item></channel>'' \<and>
   Load simple_engine ''<channel><item><title>X</title></item></channel>'' (empty_appcast, []) =
     (Inr (), (empty_appcast\<lparr>Title := ''X''\<rparr>, []))"
proof -
  have c: "reports_malformed simple_well_formed simple_engine"
    by (simp add: reports_malformed_def simple_well_formed_def)
  have p: "parser_created simple_engine" by (simp add: simple_engine_def)
  have m: "XML_ErrorString simple_engine ''<channel><item><title>X</ti'' = ''unclosed token''"
    "XML_ErrorString simple_engine ''<channel><item></channel>'' = ''mismatched tag''"
    by (simp_all add: simple_engine_def)
  have t: "\<not> simple_well_formed ''<channel><item><title>X</ti''"
    and u: "\<not> simple_well_formed ''<channel><item></channel>''"
    and w: "simple_well_formed ''<channel><item><title>X</title></item></channel>''"
    by (simp_all add: simple_well_formed_def simple_engine_def flush_text_def isspace_def)
  have n: "snd (XML_Parse simple_engine ''<channel><item><title>X</ti'' False) = XML_STATUS_OK"
    by (simp add: simple_engine_def flush_text_def)
  have x: "XML_Parse simple_engine ''<channel><item><title>X</title></item></channel>'' True =
      ([StartElement NODE_CHANNEL [], StartElement NODE_ITEM [], StartElement NODE_TITLE [],
        CharacterData ''X'', EndElement NODE_TITLE, EndElement NODE_ITEM,
        EndElement NODE_CHANNEL], XML_STATUS_OK)"
    by (simp add: simple_engine_def flush_text_def name_defs)
  have r: "run_events [StartElement NODE_CHANNEL [], StartElement NODE_ITEM [], StartElement NODE_TITLE [],
        CharacterData ''X'', EndElement NODE_TITLE, EndElement NODE_ITEM,
        EndElement NODE_CHANNEL] (new_context empty_appcast, []) =
      (\<lparr>appcast = empty_appcast\<lparr>Title := ''X''\<rparr>, in_channel = 0, in_item = 1, in_relnotes = 0,
        in_title = 0, in_description = 0\<rparr>, [])"
    by (simp add: handler_defs name_defs)
  have ok: "Load simple_engine ''<channel><item><title>X</title></item></channel>'' (empty_appcast, []) =
     (Inr (), (empty_appcast\<lparr>Title := ''X''\<rparr>, []))"
    using p r by (simp add: Load_def x)
  from Load_fails_iff [of simple_engine "''<channel><item><title>X</ti''" "(empty_appcast, [])"
      simple_well_formed] c p t m(1)
  have f1: "fst (Load simple_engine ''<channel><item><title>X</ti'' (empty_appcast, [])) =
     Inl (runtime_error ''XML parser error: unclosed token'')" by simp
  from Load_fails_iff [of simple_engine "''<channel><item></channel>''" "(empty_appcast, [])"
      simple_well_formed] c p u m(2)
  have f2: "fst (Load simple_engine ''<channel><item></channel>'' (empty_appcast, [])) =
     Inl (runtime_error ''XML parser error: mismatched tag'')" by simp
  from c t n f1 u f2 w ok show ?thesis by blast
qed

text \<open>
  Claim C10. When \<^verbatim>\<open>Appcast::Load\<close> throws for a parse error, the descriptor and
  \<^verbatim>\<open>last_version\<close> are what the handlers made of them on the events before the error;
  nothing is rolled back.
\<close>

theorem Load_error_keeps_mutations:
  assumes "parser_created eng" and "XML_Parse eng xml True = (events, XML_STATUS_ERROR)"
  shows "Load eng xml (a, last_version) =
     (Inl (runtime_error (''XML parser error: '' @ XML_ErrorString eng xml)),
      (appcast (fst (run_events events (new_context a, last_version))),
       snd (run_events events (new_context a, last_version))))"
  using assms by (simp add: Load_def Let_def split: prod.splits)

text \<open>
  A document that breaks off after an enclosure and the start of a title: the
  descriptor keeps the url, the version and the title text, and \<^verbatim>\<open>last_version\<close> the
  version, which the state before the call did not have.
\<close>

theorem Load_error_keeps_mutations_witness:
  "Load \<lparr>parser_created = True,
         XML_Parse = (\<lambda>xml isFinal. ([StartElement NODE_CHANNEL [], StartElement NODE_ITEM [],
              StartElement NODE_ENCLOSURE [(ATTR_URL, ''u''), (ATTR_VERSION, ''1.0'')],
              StartElement NODE_TITLE [], CharacterData ''T''], XML_STATUS_ERROR)),
         XML_ErrorString = (\<lambda>xml. ''no element found'')\<rparr> ''<channel>'' (empty_appcast, []) =
     (Inl (runtime_error ''XML parser error: no element found''),
      (empty_appcast\<lparr>DownloadURL := ''u'', Version := ''1.0'', Title := ''T''\<rparr>, ''1.0'')) \<and>
   (empty_appcast\<lparr>DownloadURL := ''u'', Version := ''1.0'', Title := ''T''\<rparr>, ''1.0'') \<noteq>
     (empty_appcast, [])"
proof -
  let ?evs = "[StartElement NODE_CHANNEL [], StartElement NODE_ITEM [],
              StartElement NODE_ENCLOSURE [(ATTR_URL, ''u''), (ATTR_VERSION, ''1.0'')],
              StartElement NODE_TITLE [], CharacterData ''T'']"
  let ?eng = "\<lparr>parser_created = True, XML_Parse = (\<lambda>xml isFinal. (?evs, XML_STATUS_ERROR)),
         XML_ErrorString = (\<lambda>xml. ''no element found'')\<rparr>"
  have p: "parser_created ?eng" by simp
  have x: "XML_Parse ?eng ''<channel>'' True = (?evs, XML_STATUS_ERROR)" by simp
  have r: "run_events ?evs (new_context empty_appcast, []) =
     ((new_context (empty_appcast\<lparr>DownloadURL := ''u'', Version := ''1.0'', Title := ''T''\<rparr>))
        \<lparr>in_channel := 1, in_item := 1, in_title := 1\<rparr>, ''1.0'')"
    by (simp add: handler_defs name_defs)
  show ?thesis
    using Load_error_keeps_mutations [OF p x, of empty_appcast "[]"] r
    by (simp add: empty_appcast_def new_context_def)
qed

end
